theory Spec2Isabelle
  imports Main
begin

section \<open>The image data layer: manifest parser, dataset cursor and batch loader\<close>

text \<open>
  This theory embeds \<^verbatim>\<open>src/caffe/layers/image_data_layer.cpp\<close>: the setup routine
  \<^verbatim>\<open>ImageDataLayer::DataLayerSetUp\<close>, which parses the manifest of file names and
  label lists, and \<^verbatim>\<open>ImageDataLayer::load_batch\<close>, which fills one batch from the
  dataset cursor. Code outside that file (the image reader, the shape inference and the
  transformer, the random generators, the tensor container) enters as parameters.
\<close>

subsection \<open>Failures\<close>

text \<open>
  A \<^verbatim>\<open>CHECK\<close> that does not hold logs and aborts the process; \<^verbatim>\<open>string::at\<close>
  throws; an unchecked index outside a vector or outside a tensor's memory has no
  defined behaviour. The three are kept apart.
\<close>

datatype check =
    Height_width_together
  | Separators_differ
  | Enough_points_to_skip
  | Could_load
  | Positive_batch_size
  | Batch_data_count
  | Transformed_data_count
  | Lines_size_gt_lines_id

datatype error =
    CHECK_failed check
  | Out_of_range
  | Undefined

subsection \<open>The string stream of one manifest line\<close>

text \<open>
  \<^verbatim>\<open>std::istringstream iss(line)\<close> is its unread characters and its fail bit. The
  eof bit is not stored: it is set only once a read has met the end of the buffer, the
  buffer never grows, and every operation used here does on an exhausted buffer what it
  does on a stream whose eof bit is set.

  \<^verbatim>\<open>peek()\<close> returns an \<^verbatim>\<open>int\<close>: \<^verbatim>\<open>EOF\<close>, which is -1, when no character can be
  read, and otherwise the next character as the value of an \<^verbatim>\<open>unsigned char\<close>, from
  0 to 255. The file compares that \<^verbatim>\<open>int\<close> with a plain \<^verbatim>\<open>char\<close>, which the
  comparison promotes to \<^verbatim>\<open>int\<close>; plain \<^verbatim>\<open>char\<close> is signed on the x86-64 targets
  the layer is built for, so the promoted value lies between -128 and 127
  (\<open>char_to_int\<close>). A separator byte of 0x80 or more is therefore equal to no character
  that \<^verbatim>\<open>peek()\<close> returns, and the byte 0xFF is equal to \<^verbatim>\<open>EOF\<close>.
\<close>

record istringstream =
  buf :: string
  failbit :: bool

definition istringstream_of :: "string \<Rightarrow> istringstream" where
  "istringstream_of line = \<lparr>buf = line, failbit = False\<rparr>"

definition EOF :: int where
  "EOF = - 1"

definition peek :: "istringstream \<Rightarrow> int" where
  "peek s = (if failbit s then EOF else case buf s of [] \<Rightarrow> EOF | c # _ \<Rightarrow> of_char c)"

definition char_to_int :: "char \<Rightarrow> int" where
  "char_to_int c = (if (of_char c :: int) < 128 then of_char c else of_char c - 256)"

definition ignore :: "istringstream \<Rightarrow> istringstream" where
  "ignore s = (if failbit s then s else s\<lparr>buf := drop 1 (buf s)\<rparr>)"

definition isspace :: "char \<Rightarrow> bool" where
  "isspace c = (c \<in> set [CHR '' '', CHR 0x09, CHR 0x0A, CHR 0x0B, CHR 0x0C, CHR 0x0D])"

definition isdigit :: "char \<Rightarrow> bool" where
  "isdigit c = (c \<in> set ''0123456789'')"

definition digits_value :: "string \<Rightarrow> int" where
  "digits_value ds = foldl (\<lambda>a c. 10 * a + (of_char c - 48)) 0 ds"

definition INT_MAX :: int where
  "INT_MAX = 2147483647"

definition INT_MIN :: int where
  "INT_MIN = - 2147483648"

text \<open>\<^verbatim>\<open>iss >> filename\<close>: skip white space, then take the characters up to the next
  white space. When the stream is not good or holds white space only, the fail bit is
  set and the target string is left as it was (\<open>None\<close>).\<close>

definition extract_string :: "istringstream \<Rightarrow> string option \<times> istringstream" where
  "extract_string s =
     (if failbit s then (None, s)
      else let b = dropWhile isspace (buf s) in
        if b = [] then (None, s\<lparr>buf := [], failbit := True\<rparr>)
        else (Some (takeWhile (\<lambda>c. \<not> isspace c) b),
              s\<lparr>buf := dropWhile (\<lambda>c. \<not> isspace c) b\<rparr>))"

text \<open>\<^verbatim>\<open>iss >> label\<close> for an \<^verbatim>\<open>int\<close>: skip white space, take an optional sign and
  the decimal digits that follow. No digit, or a value outside the 32-bit range, sets
  the fail bit; the characters read stay consumed.\<close>

definition extract_int :: "istringstream \<Rightarrow> int option \<times> istringstream" where
  "extract_int s =
     (if failbit s then (None, s)
      else let b = dropWhile isspace (buf s) in
        if b = [] then (None, s\<lparr>buf := [], failbit := True\<rparr>)
        else
          let negative = (hd b = CHR ''-'');
              b1 = (if hd b = CHR ''-'' \<or> hd b = CHR ''+'' then tl b else b);
              ds = takeWhile isdigit b1;
              rest = dropWhile isdigit b1;
              v = (if negative then - digits_value ds else digits_value ds)
          in if ds = [] \<or> v < INT_MIN \<or> INT_MAX < v
             then (None, s\<lparr>buf := rest, failbit := True\<rparr>)
             else (Some v, s\<lparr>buf := rest\<rparr>))"

text \<open>\<^verbatim>\<open>while (iss.peek() == ' ') iss.ignore();\<close>\<close>

definition skip_spaces :: "istringstream \<Rightarrow> istringstream" where
  "skip_spaces s =
     (if failbit s then s else s\<lparr>buf := dropWhile (\<lambda>c. c = CHR '' '') (buf s)\<rparr>)"

subsection \<open>The manifest parser of DataLayerSetUp\<close>

type_synonym entry = "string \<times> int list list"

text \<open>Modelled from the spec: the header's constant \<^verbatim>\<open>NUM_LABEL_LISTS\<close> is not in the
  sources; the spec has exactly 2 label groups per entry.\<close>

definition NUM_LABEL_LISTS :: nat where
  "NUM_LABEL_LISTS = 2"

text \<open>The local variables of the parsing loop. \<^verbatim>\<open>filename\<close>, \<^verbatim>\<open>max_label_id\<close> and
  \<^verbatim>\<open>is_multi_label\<close> are declared before the loop and live across lines.\<close>

record locals =
  filename :: string
  max_label_id :: int
  is_multi_label :: bool
  iss :: istringstream
  labels :: "int list list"
  total_labels :: int

text \<open>\<^verbatim>\<open>while (iss >> label) { ... }\<close> for the label list \<open>v\<close> (lines 88 to 104).\<close>

function while_label :: "char \<Rightarrow> char \<Rightarrow> nat \<Rightarrow> locals \<Rightarrow> locals" where
  "while_label label_separator label_list_separator v st =
     (case extract_int (iss st) of
        (None, s1) \<Rightarrow> st\<lparr>iss := s1\<rparr>
      | (Some label, s1) \<Rightarrow>
          let st1 = st\<lparr>iss := s1,
                       max_label_id := (if label > max_label_id st then label else max_label_id st),
                       labels := (labels st)[v := labels st ! v @ [label]],
                       total_labels := total_labels st + 1\<rparr>;
              st2 = (if peek (iss st1) = char_to_int label_separator
                     then st1\<lparr>iss := ignore (iss st1)\<rparr> else st1)
          in if peek (iss st2) = char_to_int label_list_separator
             then st2\<lparr>iss := ignore (iss st2)\<rparr>
             else while_label label_separator label_list_separator v st2)"
  by pat_completeness auto

termination while_label
proof (relation "measure (\<lambda>(sep, lsep, v, st). length (buf (iss st)))", goal_cases)
  case 1
  show ?case by simp
next
  case (2 sep lsep v st x1 s1 label st1 st2)
  define b where "b = dropWhile isspace (buf (iss st))"
  define b1 where "b1 = (if hd b = CHR ''-'' \<or> hd b = CHR ''+'' then tl b else b)"
  from 2(1,2) have a: "extract_int (iss st) = (Some label, s1)"
    by simp
  from a have nf: "\<not> failbit (iss st)" and ne: "b \<noteq> []"
    by (auto simp: extract_int_def Let_def b_def split: if_splits)
  from a nf ne have ds: "takeWhile isdigit b1 \<noteq> []" and s1: "buf s1 = dropWhile isdigit b1"
    by (auto simp: extract_int_def Let_def b_def b1_def split: if_splits)
  have "length (takeWhile isdigit b1) + length (dropWhile isdigit b1) = length b1"
    by (metis length_append takeWhile_dropWhile_id)
  with ds have "length (dropWhile isdigit b1) < length b1"
    by (cases "takeWhile isdigit b1") auto
  moreover have "length b1 \<le> length b"
    by (simp add: b1_def)
  moreover have "length b \<le> length (buf (iss st))"
    unfolding b_def by (rule length_dropWhile_le)
  ultimately have "length (buf s1) < length (buf (iss st))"
    using s1 by simp
  moreover from 2(3) have "iss st1 = s1" by simp
  moreover from 2(4) have "length (buf (iss st2)) \<le> length (buf (iss st1))"
    by (simp add: ignore_def)
  ultimately show ?case by simp
qed

declare while_label.simps [simp del]

text \<open>One pass of \<^verbatim>\<open>for (int v = 0; v < labels.size(); ++v)\<close> (lines 78 to 105).\<close>

definition for_label_list :: "char \<Rightarrow> char \<Rightarrow> locals \<Rightarrow> nat \<Rightarrow> locals" where
  "for_label_list label_separator label_list_separator st v =
     (let st1 = st\<lparr>iss := skip_spaces (iss st)\<rparr> in
      if peek (iss st1) = char_to_int label_list_separator
      then st1\<lparr>iss := ignore (iss st1), is_multi_label := True\<rparr>
      else while_label label_separator label_list_separator v st1)"

text \<open>The body of \<^verbatim>\<open>while (std::getline(infile, line))\<close> (lines 63 to 114), on the
  locals and the dataset \<^verbatim>\<open>lines_\<close>.\<close>

definition read_line :: "char \<Rightarrow> char \<Rightarrow> locals \<times> entry list \<Rightarrow> string \<Rightarrow> locals \<times> entry list" where
  "read_line label_separator label_list_separator acc line =
     (let st = fst acc; s0 = istringstream_of line in
      if peek s0 = char_to_int CHR ''#'' then acc
      else
        let r = extract_string s0;
            st1 = st\<lparr>filename := (case fst r of Some f \<Rightarrow> f | None \<Rightarrow> filename st),
                     iss := skip_spaces (snd r),
                     labels := replicate NUM_LABEL_LISTS [],
                     total_labels := 0\<rparr>;
            st2 = foldl (for_label_list label_separator label_list_separator) st1
                    [0 ..< length (labels st1)];
            st3 = (if total_labels st2 > 1 then st2\<lparr>is_multi_label := True\<rparr> else st2)
        in (st3, snd acc @ [(filename st3, labels st3)]))"

text \<open>\<^verbatim>\<open>std::getline\<close> until it fails: the lines of the file. A last line without a
  newline is returned when it holds a character; an empty file has no line.\<close>

fun getlines :: "string \<Rightarrow> string \<Rightarrow> string list" where
  "getlines line [] = (if line = [] then [] else [line])"
| "getlines line (c # cs) =
     (if c = CHR 0x0A then line # getlines [] cs else getlines (line @ [c]) cs)"

definition locals0 :: locals where
  "locals0 = \<lparr>filename = [], max_label_id = 0, is_multi_label = False,
              iss = istringstream_of [], labels = [], total_labels = 0\<rparr>"

definition read_manifest :: "char \<Rightarrow> char \<Rightarrow> string \<Rightarrow> locals \<times> entry list" where
  "read_manifest label_separator label_list_separator source =
     foldl (read_line label_separator label_list_separator) (locals0, []) (getlines [] source)"

subsection \<open>Parameters, collaborators and the layer's members\<close>

text \<open>Members written \<^verbatim>\<open>name_\<close> in the source are written \<open>name\<close> here.\<close>

text \<open>The fields of \<^verbatim>\<open>image_data_param\<close> that the file reads. \<open>source\<close> stands for the
  characters of the file of that name (none when the file cannot be opened: the first
  \<^verbatim>\<open>getline\<close> fails then).\<close>

record image_data_param =
  source :: string
  root_folder :: string
  new_height :: int
  new_width :: int
  is_color :: bool
  batch_size :: int
  shuffle :: bool
  rand_skip :: nat
  label_separator :: string
  label_list_separator :: string

text \<open>
  What the file calls and does not define. \<open>ReadImageToCVMat\<close> returns \<open>None\<close> for a
  matrix without data; it is a function of its arguments (the files do not change while
  a batch is loaded). \<open>caffe_rng_rand k\<close> is the value of the \<open>k\<close>-th call of
  \<^verbatim>\<open>caffe_rng_rand()\<close> in the setup; \<open>RNG\<close> builds the prefetch generator from its
  seed and \<open>shuffle_fn\<close> is \<^verbatim>\<open>shuffle(begin, end, rng)\<close>. \<open>Transform\<close> gives the
  content written into one slot of the image tensor. \<open>USE_LABEL\<close> and
  \<open>ignore_label\<close> are the two values put into \<^verbatim>\<open>LABEL_VALUES\<close>, and
  \<open>PREFETCH_COUNT\<close> is the number of batches of the base class.
\<close>

record ('img, 'px, 'rng) collaborators =
  ReadImageToCVMat :: "string \<Rightarrow> int \<Rightarrow> int \<Rightarrow> bool \<Rightarrow> 'img option"
  InferBlobShape :: "'img \<Rightarrow> int list"
  Transform :: "'img \<Rightarrow> 'px"
  caffe_rng_rand :: "nat \<Rightarrow> nat"
  RNG :: "nat \<Rightarrow> 'rng"
  shuffle_fn :: "'rng \<Rightarrow> entry list \<Rightarrow> entry list \<times> 'rng"
  USE_LABEL :: int
  ignore_label :: int
  PREFETCH_COUNT :: nat

text \<open>
  A batch: the shape of the image tensor with one cell per slot (\<open>None\<close> while the slot
  has not been written since the last reshape: its content is then whatever the memory
  held), and the label tensor as its shape and its row-major memory. Labels are stored
  as \<^verbatim>\<open>Dtype\<close>; the model keeps the integer stored.
\<close>

record 'px batch =
  data_shape :: "int list"
  data :: "'px option list"
  label_shape :: "int list"
  label :: "int list"

record ('px, 'rng) layer =
  LABEL_VALUES :: "int list"
  lines :: "entry list"
  lines_id :: nat
  num_labels_per_line :: int
  prefetch_rng :: "'rng option"
  transformed_data :: "int list"
  prefetch :: "'px batch list"
  top_blobs :: "int list list"

text \<open>Modelled from the spec: \<^verbatim>\<open>Blob::count\<close>, \<^verbatim>\<open>Blob::Reshape\<close> and
  \<^verbatim>\<open>Blob::offset\<close> are not in the sources. A tensor of shape \<open>[B, C, H, W]\<close> or
  \<open>[B, L]\<close> is row-major, its count is the product of its shape, and the offset of
  item \<open>n\<close> in the label tensor is \<open>n * L\<close>.\<close>

definition count :: "int list \<Rightarrow> int" where
  "count shape = prod_list shape"

definition Reshape_data :: "int list \<Rightarrow> 'px batch \<Rightarrow> 'px batch" where
  "Reshape_data shape b = b\<lparr>data_shape := shape, data := replicate (nat (hd shape)) None\<rparr>"

definition Reshape_label :: "int list \<Rightarrow> 'px batch \<Rightarrow> 'px batch" where
  "Reshape_label shape b = b\<lparr>label_shape := shape, label := replicate (nat (count shape)) 0\<rparr>"

definition label_offset :: "'px batch \<Rightarrow> nat \<Rightarrow> int" where
  "label_offset b item_id = int item_id * (label_shape b ! 1)"

text \<open>\<^verbatim>\<open>caffe_set(N, alpha, Y)\<close> writes \<open>alpha\<close> to the first \<open>N\<close> cells of \<open>Y\<close>.\<close>

definition caffe_set :: "int \<Rightarrow> int \<Rightarrow> int list \<Rightarrow> error + int list" where
  "caffe_set N alpha Y =
     (if 0 \<le> N \<and> N \<le> int (length Y)
      then Inr (replicate (nat N) alpha @ drop (nat N) Y)
      else Inl Undefined)"

subsection \<open>The dataset cursor\<close>

definition ShuffleImages ::
  "('img, 'px, 'rng) collaborators \<Rightarrow> ('px, 'rng) layer \<Rightarrow> error + ('px, 'rng) layer" where
  "ShuffleImages env s =
     (case prefetch_rng s of
        None \<Rightarrow> Inl Undefined
      | Some g \<Rightarrow>
          let r = shuffle_fn env g (lines s)
          in Inr (s\<lparr>lines := fst r, prefetch_rng := Some (snd r)\<rparr>))"

text \<open>\<^verbatim>\<open>lines_id_++\<close> and the restart from the first line (lines 199 to 207, 234 to 242
  and 274 to 282). \<open>lines_size\<close> is what the index is compared with:
  \<^verbatim>\<open>lines_.size()\<close> in the first two places and the local \<^verbatim>\<open>lines_size\<close> in the
  third.\<close>

definition next_line ::
  "('img, 'px, 'rng) collaborators \<Rightarrow> image_data_param \<Rightarrow> nat \<Rightarrow> ('px, 'rng) layer
    \<Rightarrow> error + ('px, 'rng) layer" where
  "next_line env p lines_size s =
     (let s1 = s\<lparr>lines_id := lines_id s + 1\<rparr> in
      if lines_id s1 \<ge> lines_size then
        (let s2 = s1\<lparr>lines_id := 0\<rparr> in
         if shuffle p then ShuffleImages env s2 else Inr s2)
      else Inr s1)"

text \<open>\<^verbatim>\<open>ReadImageToCVMat(root_folder + lines_[lines_id_].first, ...)\<close>; the index is
  not checked.\<close>

definition read_image ::
  "('img, 'px, 'rng) collaborators \<Rightarrow> image_data_param \<Rightarrow> ('px, 'rng) layer
    \<Rightarrow> error + 'img option" where
  "read_image env p s =
     (if lines_id s < length (lines s)
      then Inr (ReadImageToCVMat env (root_folder p @ fst (lines s ! lines_id s))
                  (new_height p) (new_width p) (is_color p))
      else Inl Undefined)"

text \<open>A load and its \<^verbatim>\<open>while(!cv_img.data)\<close> loop (lines 195 to 210 and 230 to 245):
  the image loaded and the layer with the cursor on its line. The loop does not end
  while no load succeeds; then the value is \<open>None\<close>.\<close>

partial_function (option) load_image ::
  "('img, 'px, 'rng) collaborators \<Rightarrow> image_data_param \<Rightarrow> ('px, 'rng) layer
    \<Rightarrow> (error + 'img \<times> ('px, 'rng) layer) option" where
  "load_image env p s =
     (case read_image env p s of
        Inl e \<Rightarrow> Some (Inl e)
      | Inr (Some cv_img) \<Rightarrow> Some (Inr (cv_img, s))
      | Inr None \<Rightarrow>
          (case next_line env p (length (lines s)) s of
             Inl e \<Rightarrow> Some (Inl e)
           | Inr s' \<Rightarrow> load_image env p s'))"

declare load_image.simps [code]

subsection \<open>The labels of one slot\<close>

definition write_at :: "int list \<Rightarrow> int \<Rightarrow> int \<Rightarrow> error + int list" where
  "write_at Y i x =
     (if 0 \<le> i \<and> i < int (length Y) then Inr (Y[nat i := x]) else Inl Undefined)"

text \<open>\<^verbatim>\<open>for (int l = 0; l < lines_[lines_id_].second[v].size(); ++l)\<close>: the cell at
  \<open>label_offset + label_id\<close> is read and then set, whatever it held.\<close>

fun for_label_id :: "int list \<Rightarrow> int \<Rightarrow> int \<Rightarrow> int list \<Rightarrow> error + int list" where
  "for_label_id prefetch_label off x [] = Inr prefetch_label"
| "for_label_id prefetch_label off x (label_id # ids) =
     (case write_at prefetch_label (off + label_id) x of
        Inl e \<Rightarrow> Inl e
      | Inr Y \<Rightarrow> for_label_id Y off x ids)"

text \<open>\<^verbatim>\<open>for (int v = 0; v < NUM_LABEL_LISTS; ++v)\<close> (lines 259 to 270).\<close>

fun for_v :: "int list \<Rightarrow> int \<Rightarrow> int list \<Rightarrow> int list list \<Rightarrow> nat list \<Rightarrow> error + int list" where
  "for_v prefetch_label off LV second [] = Inr prefetch_label"
| "for_v prefetch_label off LV second (v # vs) =
     (if v < length second \<and> v < length LV then
        (case for_label_id prefetch_label off (LV ! v) (second ! v) of
           Inl e \<Rightarrow> Inl e
         | Inr Y \<Rightarrow> for_v Y off LV second vs)
      else Inl Undefined)"

text \<open>Lines 254 to 271: the single label, or the label lists.\<close>

definition set_labels ::
  "('px, 'rng) layer \<Rightarrow> 'px batch \<Rightarrow> nat \<Rightarrow> error + int list" where
  "set_labels s b item_id =
     (let second = snd (lines s ! lines_id s) in
      if num_labels_per_line s = 1 then
        (if second = [] \<or> hd second = [] then Inl Undefined
         else write_at (label b) (int item_id) (hd (hd second)))
      else for_v (label b) (label_offset b item_id) (LABEL_VALUES s) second
             [0 ..< NUM_LABEL_LISTS])"

subsection \<open>load_batch\<close>

text \<open>The body of \<^verbatim>\<open>for (int item_id = 0; item_id < batch_size; ++item_id)\<close>, over
  the item ids still to fill.\<close>

fun for_item_id ::
  "('img, 'px, 'rng) collaborators \<Rightarrow> image_data_param \<Rightarrow> nat \<Rightarrow> nat list
    \<Rightarrow> ('px, 'rng) layer \<Rightarrow> 'px batch \<Rightarrow> (error + ('px, 'rng) layer \<times> 'px batch) option" where
  "for_item_id env p lines_size [] s b = Some (Inr (s, b))"
| "for_item_id env p lines_size (item_id # ids) s b =
     (if \<not> lines_id s < lines_size then Some (Inl (CHECK_failed Lines_size_gt_lines_id))
      else
        (case load_image env p s of
           None \<Rightarrow> None
         | Some (Inl e) \<Rightarrow> Some (Inl e)
         | Some (Inr (cv_img, s1)) \<Rightarrow>
             if \<not> item_id < length (data b) then Some (Inl Undefined)
             else
               (let b1 = b\<lparr>data := (data b)[item_id := Some (Transform env cv_img)]\<rparr> in
                case set_labels s1 b1 item_id of
                  Inl e \<Rightarrow> Some (Inl e)
                | Inr Y \<Rightarrow>
                    (case next_line env p lines_size s1 of
                       Inl e \<Rightarrow> Some (Inl e)
                     | Inr s2 \<Rightarrow> for_item_id env p lines_size ids s2 (b1\<lparr>label := Y\<rparr>)))))"

definition load_batch ::
  "('img, 'px, 'rng) collaborators \<Rightarrow> image_data_param \<Rightarrow> ('px, 'rng) layer \<Rightarrow> 'px batch
    \<Rightarrow> (error + ('px, 'rng) layer \<times> 'px batch) option" where
  "load_batch env p s b =
     (if count (data_shape b) = 0 then Some (Inl (CHECK_failed Batch_data_count))
      else if count (transformed_data s) = 0 then Some (Inl (CHECK_failed Transformed_data_count))
      else
        (case load_image env p s of
           None \<Rightarrow> None
         | Some (Inl e) \<Rightarrow> Some (Inl e)
         | Some (Inr (cv_img, s1)) \<Rightarrow>
             (let top_shape = InferBlobShape env cv_img;
                  s2 = s1\<lparr>transformed_data := top_shape\<rparr>
              in if top_shape = [] then Some (Inl Undefined)
                 else
                   (let b1 = Reshape_data (top_shape[0 := batch_size p]) b in
                    case caffe_set (batch_size p * num_labels_per_line s2) 0 (label b1) of
                      Inl e \<Rightarrow> Some (Inl e)
                    | Inr Y \<Rightarrow>
                        for_item_id env p (length (lines s2)) [0 ..< nat (batch_size p)]
                          s2 (b1\<lparr>label := Y\<rparr>)))))"

subsection \<open>DataLayerSetUp\<close>

text \<open>Lines 116 to 139: the label width, the shuffle and the random skip, on the parsed
  dataset.\<close>

definition empty_batch :: "'px batch" where
  "empty_batch = \<lparr>data_shape = [], data = [], label_shape = [], label = []\<rparr>"

definition setup_cursor ::
  "('img, 'px, 'rng) collaborators \<Rightarrow> image_data_param \<Rightarrow> locals \<times> entry list
    \<Rightarrow> error + ('px, 'rng) layer" where
  "setup_cursor env p parsed =
     (let st = fst parsed in
      if is_multi_label st \<and> max_label_id st = INT_MAX then Inl Undefined
      else
        (let s0 = \<lparr>LABEL_VALUES = [USE_LABEL env, ignore_label env],
                   lines = snd parsed,
                   lines_id = 0,
                   num_labels_per_line = (if is_multi_label st then max_label_id st + 1 else 1),
                   prefetch_rng = None,
                   transformed_data = [],
                   prefetch = replicate (PREFETCH_COUNT env) empty_batch,
                   top_blobs = [[], []]\<rparr>;
             shuffled = (if shuffle p
                         then ShuffleImages env (s0\<lparr>prefetch_rng := Some (RNG env (caffe_rng_rand env 0))\<rparr>)
                         else Inr s0)
         in case shuffled of
              Inl e \<Rightarrow> Inl e
            | Inr s1 \<Rightarrow>
                if rand_skip p \<noteq> 0 then
                  (let skip = caffe_rng_rand env (if shuffle p then 1 else 0) mod rand_skip p in
                   if \<not> length (lines s1) > skip then Inl (CHECK_failed Enough_points_to_skip)
                   else Inr (s1\<lparr>lines_id := skip\<rparr>))
                else Inr s1))"

text \<open>Lines 140 to 166: the first image and the shapes of the tensors.\<close>

definition setup_shapes ::
  "('img, 'px, 'rng) collaborators \<Rightarrow> image_data_param \<Rightarrow> ('px, 'rng) layer
    \<Rightarrow> error + ('px, 'rng) layer" where
  "setup_shapes env p s =
     (case read_image env p s of
        Inl e \<Rightarrow> Inl e
      | Inr None \<Rightarrow> Inl (CHECK_failed Could_load)
      | Inr (Some cv_img) \<Rightarrow>
          (let top_shape = InferBlobShape env cv_img in
           if \<not> batch_size p > 0 then Inl (CHECK_failed Positive_batch_size)
           else if top_shape = [] then Inl Undefined
           else
             (let top_shape' = top_shape[0 := batch_size p];
                  label_shape = [batch_size p, num_labels_per_line s]
              in Inr (s\<lparr>transformed_data := top_shape,
                        prefetch := map (\<lambda>b. Reshape_label label_shape (Reshape_data top_shape' b))
                                       (prefetch s),
                        top_blobs := [top_shape', label_shape]\<rparr>))))"

definition DataLayerSetUp ::
  "('img, 'px, 'rng) collaborators \<Rightarrow> image_data_param \<Rightarrow> error + ('px, 'rng) layer" where
  "DataLayerSetUp env p =
     (if label_separator p = [] \<or> label_list_separator p = [] then Inl Out_of_range
      else if \<not> ((new_height p = 0 \<and> new_width p = 0) \<or> (new_height p > 0 \<and> new_width p > 0))
      then Inl (CHECK_failed Height_width_together)
      else if hd (label_separator p) = hd (label_list_separator p)
      then Inl (CHECK_failed Separators_differ)
      else
        (case setup_cursor env p
                (read_manifest (hd (label_separator p)) (hd (label_list_separator p)) (source p)) of
           Inl e \<Rightarrow> Inl e
         | Inr s \<Rightarrow> setup_shapes env p s))"

subsection \<open>Notions used in the statements\<close>

text \<open>The stream of a line behind its file name and the blanks that follow it: where
  the first label list starts.\<close>

definition labels_start :: "string \<Rightarrow> istringstream" where
  "labels_start l = skip_spaces (snd (extract_string (istringstream_of l)))"

text \<open>The stream \<open>s\<close> behind one label and behind the label separator that follows the
  label, if one does.\<close>

definition after_label :: "char \<Rightarrow> istringstream \<Rightarrow> istringstream" where
  "after_label sep s =
     (let s1 = snd (extract_int s) in if peek s1 = char_to_int sep then ignore s1 else s1)"

text \<open>The label list separator stands where a label list of the line starts: it is what
  \<^verbatim>\<open>peek()\<close> gives where the first list starts; or one label is read there, the list
  separator is what \<^verbatim>\<open>peek()\<close> gives behind it (which ends the first list), and
  behind that separator and blanks it is what \<^verbatim>\<open>peek()\<close> gives again, where the
  second list starts.\<close>

definition list_starts_with_separator :: "char \<Rightarrow> char \<Rightarrow> string \<Rightarrow> bool" where
  "list_starts_with_separator sep lsep l =
     (let s0 = labels_start l; s2 = after_label sep s0 in
      peek s0 = char_to_int lsep \<or>
      (fst (extract_int s0) \<noteq> None \<and> peek s2 = char_to_int lsep \<and>
       peek (skip_spaces (ignore s2)) = char_to_int lsep))"

text \<open>The load of line \<open>i\<close> of a dataset.\<close>

definition image_at ::
  "('img, 'px, 'rng) collaborators \<Rightarrow> image_data_param \<Rightarrow> entry list \<Rightarrow> nat \<Rightarrow> 'img option" where
  "image_at env p ls i =
     ReadImageToCVMat env (root_folder p @ fst (ls ! i)) (new_height p) (new_width p) (is_color p)"

text \<open>\<open>i\<close> is the first line at or after the cursor \<open>c\<close>, going round a dataset of
  \<open>n\<close> lines, whose load succeeds.\<close>

definition next_loadable :: "(nat \<Rightarrow> bool) \<Rightarrow> nat \<Rightarrow> nat \<Rightarrow> nat \<Rightarrow> bool" where
  "next_loadable ok n c i =
     (\<exists>k. i = (c + k) mod n \<and> ok i \<and> (\<forall>j<k. \<not> ok ((c + j) mod n)))"

text \<open>The lines \<open>is\<close> are those met from the cursor \<open>c\<close> on when each slot takes the
  next line that loads and the cursor then moves one line on.\<close>

fun visits :: "(nat \<Rightarrow> bool) \<Rightarrow> nat \<Rightarrow> nat \<Rightarrow> nat list \<Rightarrow> bool" where
  "visits ok n c [] = True"
| "visits ok n c (i # is) = (next_loadable ok n c i \<and> visits ok n ((i + 1) mod n) is)"

text \<open>The labels of an entry fit a label row of width \<open>L\<close>: with one label per line the
  first list has an element, otherwise every label is a column of the row.\<close>

definition labels_fit :: "int \<Rightarrow> entry \<Rightarrow> bool" where
  "labels_fit L e =
     (length (snd e) = 2 \<and>
      (if L = 1 then hd (snd e) \<noteq> []
       else \<forall>x \<in> set (concat (snd e)). 0 \<le> x \<and> x < L))"

text \<open>What column \<open>j\<close> of the label row of a slot holds once the slot has been filled
  from the entry \<open>e\<close>, where \<open>old\<close> was there before.\<close>

definition label_cell :: "int list \<Rightarrow> int \<Rightarrow> entry \<Rightarrow> nat \<Rightarrow> int \<Rightarrow> int" where
  "label_cell LV L e j old =
     (if L = 1 then hd (hd (snd e))
      else if int j \<in> set (snd e ! 1) then LV ! 1
      else if int j \<in> set (snd e ! 0) then LV ! 0
      else old)"

text \<open>What \<open>load_batch\<close> relies on when the dataset is not shuffled: the cursor is
  inside the dataset, the labels of every entry fit the label row, the two label values
  are set, the counts checked at lines 184 and 185 are not zero, the inferred shapes
  have an axis and no zero axis, and the label tensor of the batch has the shape that
  the setup gave it.\<close>

definition ready ::
  "('img, 'px, 'rng) collaborators \<Rightarrow> image_data_param \<Rightarrow> ('px, 'rng) layer \<Rightarrow> 'px batch \<Rightarrow> bool" where
  "ready env p s b =
     (\<not> shuffle p \<and>
      lines_id s < length (lines s) \<and>
      (\<forall>e \<in> set (lines s). labels_fit (num_labels_per_line s) e) \<and>
      1 \<le> num_labels_per_line s \<and>
      length (LABEL_VALUES s) = 2 \<and>
      count (data_shape b) \<noteq> 0 \<and>
      count (transformed_data s) \<noteq> 0 \<and>
      (\<forall>cv_img. InferBlobShape env cv_img \<noteq> [] \<and> count (InferBlobShape env cv_img) \<noteq> 0) \<and>
      0 < batch_size p \<and>
      label_shape b ! 1 = num_labels_per_line s \<and>
      length (label b) = nat (batch_size p) * nat (num_labels_per_line s))"

text \<open>The cursor operation \<open>next()\<close> of the spec, \<open>k\<close> times: the entry under the
  cursor, then the step of lines 273 to 282.\<close>

fun consume ::
  "('img, 'px, 'rng) collaborators \<Rightarrow> image_data_param \<Rightarrow> nat \<Rightarrow> ('px, 'rng) layer
    \<Rightarrow> error + entry list \<times> ('px, 'rng) layer" where
  "consume env p 0 s = Inr ([], s)"
| "consume env p (Suc k) s =
     (if lines_id s < length (lines s) then
        (case next_line env p (length (lines s)) s of
           Inl e \<Rightarrow> Inl e
         | Inr s' \<Rightarrow>
             (case consume env p k s' of
                Inl e \<Rightarrow> Inl e
              | Inr r \<Rightarrow> Inr (lines s ! lines_id s # fst r, snd r)))
      else Inl Undefined)"

text \<open>
  The cursor with shuffling: the dataset in its current order, the index of the current
  line and the generator of the shuffle, as the layer holds them.
\<close>

type_synonym 'rng cursor = "entry list \<times> nat \<times> 'rng option"

definition cursor :: "('px, 'rng) layer \<Rightarrow> 'rng cursor" where
  "cursor s = (lines s, lines_id s, prefetch_rng s)"

definition put_cursor :: "'rng cursor \<Rightarrow> ('px, 'rng) layer \<Rightarrow> ('px, 'rng) layer" where
  "put_cursor c s =
     (case c of (ls, i, g) \<Rightarrow> s\<lparr>lines := ls, lines_id := i, prefetch_rng := g\<rparr>)"










subsection \<open>A small instance\<close>

text \<open>Collaborators and parameters for concrete runs: the files \<^verbatim>\<open>a.jpg\<close> and
  \<^verbatim>\<open>c.jpg\<close> can be read, no other file can; an image is a number, and its inferred
  height and width are the number that follows it.\<close>

definition example_env :: "(nat, nat, unit) collaborators" where
  "example_env =
     \<lparr>ReadImageToCVMat = (\<lambda>f h w c. if f = ''a.jpg'' then Some 4
                                   else if f = ''c.jpg'' then Some 6 else None),
      InferBlobShape = (\<lambda>i. [1, 3, int (Suc i), int (Suc i)]),
      Transform = (\<lambda>i. i),
      caffe_rng_rand = (\<lambda>k. 7),
      RNG = (\<lambda>n. ()),
      shuffle_fn = (\<lambda>g xs. (rev xs, g)),
      USE_LABEL = 1,
      ignore_label = 255,
      PREFETCH_COUNT = 3\<rparr>"

definition example_param :: "string \<Rightarrow> image_data_param" where
  "example_param src =
     \<lparr>source = src, root_folder = [], new_height = 0, new_width = 0, is_color = True,
      batch_size = 2, shuffle = False, rand_skip = 0,
      label_separator = '','', label_list_separator = '';''\<rparr>"

text \<open>The layer that the setup leaves for a manifest of three lines whose second file
  cannot be read, with its first batch; and the same for five lines that can all be
  read.\<close>

definition example_source :: string where
  "example_source = ''a.jpg 3,7;2'' @ [CHR 0x0A] @ ''b.jpg 0'' @ [CHR 0x0A] @ ''c.jpg 1''"

definition example_layer :: "(nat, unit) layer" where
  "example_layer = projr (DataLayerSetUp example_env (example_param example_source))"

definition example_batch :: "nat batch" where
  "example_batch = hd (prefetch example_layer)"

definition example_source5 :: string where
  "example_source5 = ''a.jpg 0'' @ [CHR 0x0A] @ ''c.jpg 1'' @ [CHR 0x0A] @ ''a.jpg 2''
     @ [CHR 0x0A] @ ''c.jpg 3'' @ [CHR 0x0A] @ ''a.jpg 4''"

definition example_layer5 :: "(nat, unit) layer" where
  "example_layer5 = projr (DataLayerSetUp example_env (example_param example_source5))"

definition example_batch5 :: "nat batch" where
  "example_batch5 = hd (prefetch example_layer5)"







section \<open>Properties\<close>

subsection \<open>The stream\<close>

lemma of_char_range: "0 \<le> (of_char c :: int) \<and> (of_char c :: int) < 256"
  by (cases c) (simp add: of_char_def horner_sum_eq_sum)

lemma char_to_int_EOF: "(char_to_int c = EOF) = (c = CHR 0xFF)"
proof -
  have "((of_char c :: int) = of_char (CHR 0xFF)) = (c = CHR 0xFF)"
    by (rule of_char_eq_iff)
  moreover have "(of_char (CHR 0xFF) :: int) = 255"
    by simp
  ultimately have "((of_char c :: int) = 255) = (c = CHR 0xFF)"
    by (simp only:)
  with of_char_range [of c] show ?thesis
    by (auto simp: char_to_int_def EOF_def)
qed

lemma peek_EOF: "(peek s = EOF) = (failbit s \<or> buf s = [])"
proof (cases "buf s")
  case Nil
  then show ?thesis by (simp add: peek_def)
next
  case (Cons c cs)
  with of_char_range [of c] show ?thesis by (simp add: peek_def EOF_def)
qed

lemma peek_in_buf:
  assumes "peek s = char_to_int c" and "c \<noteq> CHR 0xFF"
  shows "c \<in> set (buf s)"
proof (cases "buf s")
  case Nil
  then have "peek s = EOF" by (simp add: peek_def)
  with assms char_to_int_EOF [of c] show ?thesis by auto
next
  case (Cons d ds)
  from assms char_to_int_EOF [of c] have "peek s \<noteq> EOF" by auto
  with Cons have p: "peek s = of_char d" by (simp add: peek_def split: if_splits)
  from of_char_range [of d] of_char_range [of c] assms(1) p have "(of_char d :: int) = of_char c"
    by (simp add: char_to_int_def split: if_splits)
  then have "d = c" by simp
  with Cons show ?thesis by simp
qed

lemma failbit_extract_int: "fst (extract_int s) = None \<Longrightarrow> failbit (snd (extract_int s))"
  by (auto simp: extract_int_def Let_def split: if_splits)

lemma skip_spaces_failed: "failbit s \<Longrightarrow> skip_spaces s = s"
  by (simp add: skip_spaces_def)

lemma skip_spaces_idem: "skip_spaces (skip_spaces s) = skip_spaces s"
  by (simp add: skip_spaces_def dropWhile_idem)

lemma peek_EOF_after: "peek s = EOF \<Longrightarrow> peek (skip_spaces (ignore s)) = EOF"
  by (auto simp: peek_EOF skip_spaces_def ignore_def)

lemma buf_ignore: "set (buf (ignore s)) \<subseteq> set (buf s)"
  by (auto simp: ignore_def dest: in_set_dropD)

lemma buf_skip_spaces: "set (buf (skip_spaces s)) \<subseteq> set (buf s)"
  by (auto simp: skip_spaces_def dest: set_dropWhileD)

lemma buf_extract_int: "set (buf (snd (extract_int s))) \<subseteq> set (buf s)"
  by (auto simp: extract_int_def Let_def dest!: set_dropWhileD list.set_sel(2)[rotated] split: if_splits)

lemma buf_extract_string: "set (buf (snd (extract_string s))) \<subseteq> set (buf s)"
  by (auto simp: extract_string_def Let_def dest!: set_dropWhileD)

lemma buf_labels_start: "set (buf (labels_start l)) \<subseteq> set l"
  using buf_skip_spaces [of "snd (extract_string (istringstream_of l))"]
    buf_extract_string [of "istringstream_of l"]
  by (auto simp: labels_start_def istringstream_of_def)

lemma buf_after_label: "set (buf (after_label sep s)) \<subseteq> set (buf s)"
  using buf_extract_int [of s] buf_ignore [of "snd (extract_int s)"]
  by (auto simp: after_label_def Let_def)

lemma list_starts_in_line:
  assumes "list_starts_with_separator sep lsep l" and "lsep \<noteq> CHR 0xFF"
  shows "lsep \<in> set l"
proof -
  from assms(1) have "peek (labels_start l) = char_to_int lsep
      \<or> peek (after_label sep (labels_start l)) = char_to_int lsep"
    by (auto simp: list_starts_with_separator_def Let_def)
  then show ?thesis
  proof
    assume "peek (labels_start l) = char_to_int lsep"
    from peek_in_buf [OF this assms(2)] buf_labels_start [of l] show ?thesis by blast
  next
    assume "peek (after_label sep (labels_start l)) = char_to_int lsep"
    from peek_in_buf [OF this assms(2)] buf_after_label [of sep "labels_start l"]
      buf_labels_start [of l]
    show ?thesis by blast
  qed
qed

subsection \<open>The parser\<close>

lemma upt_two: "[0 ..< NUM_LABEL_LISTS] = [0, 1]"
  by (simp add: NUM_LABEL_LISTS_def upt_rec)

lemma peek_comment:
  "(peek (istringstream_of l) = char_to_int CHR ''#'') = (l \<noteq> [] \<and> hd l = CHR ''#'')"
proof (cases l)
  case Nil
  have "char_to_int CHR ''#'' \<noteq> EOF" by (simp add: char_to_int_EOF)
  with Nil show ?thesis by (simp add: peek_def istringstream_of_def)
next
  case (Cons c cs)
  have h: "char_to_int CHR ''#'' = of_char CHR ''#''"
    by (simp add: char_to_int_def)
  have "((of_char c :: int) = of_char CHR ''#'') = (c = CHR ''#'')"
    by (rule of_char_eq_iff)
  with Cons show ?thesis
    by (simp add: peek_def istringstream_of_def h del: of_char_eq_iff)
qed

lemma read_line_comment: "read_line sep lsep acc (CHR ''#'' # rest) = acc"
  using peek_comment [of "CHR ''#'' # rest"] by (simp add: read_line_def)

lemma length_concat_push:
  "v < length xs \<Longrightarrow> length (concat (xs[v := xs ! v @ [a]])) = Suc (length (concat xs))"
proof (induction xs arbitrary: v)
  case Nil
  then show ?case by simp
next
  case (Cons x xs)
  then show ?case by (cases v) auto
qed

lemma while_label_None:
  "extract_int (iss st) = (None, s1) \<Longrightarrow> while_label sep lsep v st = st\<lparr>iss := s1\<rparr>"
  by (subst while_label.simps) simp

lemma while_label_Some:
  assumes "extract_int (iss st) = (Some lab, s1)"
    and "st1 = st\<lparr>iss := s1,
                 max_label_id := (if lab > max_label_id st then lab else max_label_id st),
                 labels := (labels st)[v := labels st ! v @ [lab]],
                 total_labels := total_labels st + 1\<rparr>"
    and "st2 = (if peek (iss st1) = char_to_int sep then st1\<lparr>iss := ignore (iss st1)\<rparr> else st1)"
  shows "while_label sep lsep v st =
           (if peek (iss st2) = char_to_int lsep then st2\<lparr>iss := ignore (iss st2)\<rparr>
            else while_label sep lsep v st2)"
  by (subst while_label.simps) (simp only: assms prod.case option.case Let_def)

lemma while_label_inv:
  "is_multi_label (while_label sep lsep v st) = is_multi_label st \<and>
   filename (while_label sep lsep v st) = filename st \<and>
   set (buf (iss (while_label sep lsep v st))) \<subseteq> set (buf (iss st)) \<and>
   length (labels (while_label sep lsep v st)) = length (labels st) \<and>
   total_labels st \<le> total_labels (while_label sep lsep v st) \<and>
   (v < length (labels st) \<longrightarrow>
      total_labels (while_label sep lsep v st) - int (length (concat (labels (while_label sep lsep v st))))
        = total_labels st - int (length (concat (labels st))))"
proof (induction sep lsep v st rule: while_label.induct)
  case (1 sep lsep v st)
  obtain x1 s1 where ex: "extract_int (iss st) = (x1, s1)"
    by (cases "extract_int (iss st)")
  have sub1: "set (buf s1) \<subseteq> set (buf (iss st))"
    using buf_extract_int [of "iss st"] ex by simp
  show ?case
  proof (cases x1)
    case None
    with ex have "while_label sep lsep v st = st\<lparr>iss := s1\<rparr>"
      by (simp add: while_label_None)
    with sub1 show ?thesis by simp
  next
    case (Some lab)
    define st1 where "st1 = st\<lparr>iss := s1,
                       max_label_id := (if lab > max_label_id st then lab else max_label_id st),
                       labels := (labels st)[v := labels st ! v @ [lab]],
                       total_labels := total_labels st + 1\<rparr>"
    define st2 where "st2 = (if peek (iss st1) = char_to_int sep
                     then st1\<lparr>iss := ignore (iss st1)\<rparr> else st1)"
    have sub2: "set (buf (iss st2)) \<subseteq> set (buf (iss st))"
      using sub1 buf_ignore [of s1] by (auto simp: st2_def st1_def)
    have f2: "is_multi_label st2 = is_multi_label st" "filename st2 = filename st"
      "length (labels st2) = length (labels st)" "total_labels st \<le> total_labels st2"
      by (simp_all add: st2_def st1_def)
    have t2: "v < length (labels st) \<Longrightarrow>
       total_labels st2 - int (length (concat (labels st2)))
        = total_labels st - int (length (concat (labels st)))"
      by (simp add: st2_def st1_def length_concat_push)
    show ?thesis
    proof (cases "peek (iss st2) = char_to_int lsep")
      case True
      with while_label_Some [OF ex [unfolded Some] st1_def st2_def, of lsep]
      have "while_label sep lsep v st = st2\<lparr>iss := ignore (iss st2)\<rparr>"
        by simp
      with sub2 f2 t2 buf_ignore [of "iss st2"] show ?thesis by auto
    next
      case False
      with while_label_Some [OF ex [unfolded Some] st1_def st2_def, of lsep]
      have eq: "while_label sep lsep v st = while_label sep lsep v st2"
        by simp
      have ih: "is_multi_label (while_label sep lsep v st2) = is_multi_label st2 \<and>
   filename (while_label sep lsep v st2) = filename st2 \<and>
   set (buf (iss (while_label sep lsep v st2))) \<subseteq> set (buf (iss st2)) \<and>
   length (labels (while_label sep lsep v st2)) = length (labels st2) \<and>
   total_labels st2 \<le> total_labels (while_label sep lsep v st2) \<and>
   (v < length (labels st2) \<longrightarrow>
      total_labels (while_label sep lsep v st2) - int (length (concat (labels (while_label sep lsep v st2))))
        = total_labels st2 - int (length (concat (labels st2))))"
        using "1.IH" [OF ex [symmetric] Some st1_def st2_def False] .
      show ?thesis
        unfolding eq using ih sub2 f2 t2 by auto
    qed
  qed
qed

lemma while_label_more:
  assumes ex: "extract_int (iss st) = (Some lab, s1)"
  shows "total_labels st + 1 \<le> total_labels (while_label sep lsep v st)"
proof -
  define st1 where "st1 = st\<lparr>iss := s1,
                     max_label_id := (if lab > max_label_id st then lab else max_label_id st),
                     labels := (labels st)[v := labels st ! v @ [lab]],
                     total_labels := total_labels st + 1\<rparr>"
  define st2 where "st2 = (if peek (iss st1) = char_to_int sep
                   then st1\<lparr>iss := ignore (iss st1)\<rparr> else st1)"
  have t2: "total_labels st2 = total_labels st + 1"
    by (simp add: st2_def st1_def)
  show ?thesis
  proof (cases "peek (iss st2) = char_to_int lsep")
    case True
    with while_label_Some [OF ex st1_def st2_def, of lsep]
    have "while_label sep lsep v st = st2\<lparr>iss := ignore (iss st2)\<rparr>"
      by simp
    with t2 show ?thesis by simp
  next
    case False
    with while_label_Some [OF ex st1_def st2_def, of lsep]
    have "while_label sep lsep v st = while_label sep lsep v st2"
      by simp
    with while_label_inv [of sep lsep v st2] t2 show ?thesis by simp
  qed
qed

lemma set_concat_push:
  "v < length xs \<Longrightarrow> set (concat (xs[v := xs ! v @ [a]])) = insert a (set (concat xs))"
proof (induction xs arbitrary: v)
  case Nil
  then show ?case by simp
next
  case (Cons x xs)
  then show ?case by (cases v) auto
qed

lemma while_label_max:
  assumes "v < length (labels st)"
  shows "max_label_id st \<le> max_label_id (while_label sep lsep v st) \<and>
     ((\<forall>x \<in> set (concat (labels st)). x \<le> max_label_id st) \<longrightarrow>
      (\<forall>x \<in> set (concat (labels (while_label sep lsep v st))).
          x \<le> max_label_id (while_label sep lsep v st))) \<and>
     (max_label_id (while_label sep lsep v st) = max_label_id st \<or>
      max_label_id (while_label sep lsep v st) \<in> set (concat (labels (while_label sep lsep v st)))) \<and>
     set (concat (labels st)) \<subseteq> set (concat (labels (while_label sep lsep v st)))"
  using assms
proof (induction sep lsep v st rule: while_label.induct)
  case (1 sep lsep v st)
  obtain x1 s1 where ex: "extract_int (iss st) = (x1, s1)"
    by (cases "extract_int (iss st)")
  show ?case
  proof (cases x1)
    case None
    with ex have "while_label sep lsep v st = st\<lparr>iss := s1\<rparr>"
      by (simp add: while_label_None)
    then show ?thesis by simp
  next
    case (Some lab)
    define st1 where "st1 = st\<lparr>iss := s1,
                       max_label_id := (if lab > max_label_id st then lab else max_label_id st),
                       labels := (labels st)[v := labels st ! v @ [lab]],
                       total_labels := total_labels st + 1\<rparr>"
    define st2 where "st2 = (if peek (iss st1) = char_to_int sep
                     then st1\<lparr>iss := ignore (iss st1)\<rparr> else st1)"
    have m2: "max_label_id st2 = (if lab > max_label_id st then lab else max_label_id st)"
      and l2: "labels st2 = (labels st)[v := labels st ! v @ [lab]]"
      by (simp_all add: st2_def st1_def)
    have c2: "set (concat (labels st2)) = insert lab (set (concat (labels st)))"
      unfolding l2 by (rule set_concat_push [OF "1.prems"])
    have a: "max_label_id st \<le> max_label_id st2" by (simp add: m2)
    have b: "(\<forall>x \<in> set (concat (labels st)). x \<le> max_label_id st) \<Longrightarrow>
      (\<forall>x \<in> set (concat (labels st2)). x \<le> max_label_id st2)"
      by (auto simp: c2 m2 simp del: set_concat)
    have c: "max_label_id st2 = max_label_id st \<or> max_label_id st2 \<in> set (concat (labels st2))"
      by (auto simp: c2 m2 simp del: set_concat)
    have d: "set (concat (labels st)) \<subseteq> set (concat (labels st2))"
      by (auto simp: c2 simp del: set_concat)
    have v2: "v < length (labels st2)" using "1.prems" by (simp add: l2)
    show ?thesis
    proof (cases "peek (iss st2) = char_to_int lsep")
      case True
      with while_label_Some [OF ex [unfolded Some] st1_def st2_def, of lsep]
      have "while_label sep lsep v st = st2\<lparr>iss := ignore (iss st2)\<rparr>"
        by simp
      with a b c d show ?thesis by (auto simp del: set_concat)
    next
      case False
      with while_label_Some [OF ex [unfolded Some] st1_def st2_def, of lsep]
      have eq: "while_label sep lsep v st = while_label sep lsep v st2"
        by simp
      note ih = "1.IH" [OF ex [symmetric] Some st1_def st2_def False v2]
      show ?thesis
        unfolding eq using ih a b c d by (auto simp del: set_concat)
    qed
  qed
qed

text \<open>Where the second label list starts when the first was read by the loop and the
  line has at most one label: the list separator is met there exactly when one label was
  read, the separator behind it ended the first list, and the separator follows again
  behind blanks; or when the separator is the byte that equals \<^verbatim>\<open>EOF\<close>.\<close>

lemma second_list_start:
  assumes tot: "total_labels st = 0"
    and one: "total_labels (while_label sep lsep 0 st) \<le> 1"
  shows "(peek (skip_spaces (iss (while_label sep lsep 0 st))) = char_to_int lsep)
       = (lsep = CHR 0xFF \<or>
          (fst (extract_int (iss st)) \<noteq> None \<and>
           peek (after_label sep (iss st)) = char_to_int lsep \<and>
           peek (skip_spaces (ignore (after_label sep (iss st)))) = char_to_int lsep))"
proof -
  obtain x1 s1 where ex: "extract_int (iss st) = (x1, s1)"
    by (cases "extract_int (iss st)")
  have eof: "(EOF = char_to_int lsep) = (lsep = CHR 0xFF)"
    using char_to_int_EOF [of lsep] by auto
  show ?thesis
  proof (cases x1)
    case None
    with ex have w: "while_label sep lsep 0 st = st\<lparr>iss := s1\<rparr>"
      by (simp add: while_label_None)
    from failbit_extract_int [of "iss st"] ex None have "failbit s1" by simp
    then have "peek (skip_spaces s1) = EOF"
      by (simp add: skip_spaces_failed peek_def)
    then show ?thesis
      unfolding w using ex None eof by simp
  next
    case (Some lab)
    define st1 where "st1 = st\<lparr>iss := s1,
                       max_label_id := (if lab > max_label_id st then lab else max_label_id st),
                       labels := (labels st)[0 := labels st ! 0 @ [lab]],
                       total_labels := total_labels st + 1\<rparr>"
    define st2 where "st2 = (if peek (iss st1) = char_to_int sep
                     then st1\<lparr>iss := ignore (iss st1)\<rparr> else st1)"
    have al: "after_label sep (iss st) = iss st2"
      using ex by (simp add: after_label_def st2_def st1_def)
    have t2: "total_labels st2 = 1"
      using tot by (simp add: st2_def st1_def)
    have ne: "fst (extract_int (iss st)) \<noteq> None"
      using ex Some by simp
    show ?thesis
    proof (cases "peek (iss st2) = char_to_int lsep")
      case True
      with while_label_Some [OF ex [unfolded Some] st1_def st2_def, of lsep]
      have w: "while_label sep lsep 0 st = st2\<lparr>iss := ignore (iss st2)\<rparr>"
        by simp
      have "peek (skip_spaces (ignore (iss st2))) = char_to_int lsep" if "lsep = CHR 0xFF"
      proof -
        from that have e: "char_to_int lsep = EOF" by (simp add: char_to_int_EOF)
        with True have "peek (iss st2) = EOF" by simp
        from peek_EOF_after [OF this] e show ?thesis by simp
      qed
      then show ?thesis
        unfolding w al using True ne by auto
    next
      case False
      with while_label_Some [OF ex [unfolded Some] st1_def st2_def, of lsep]
      have w: "while_label sep lsep 0 st = while_label sep lsep 0 st2"
        by simp
      obtain x3 s3 where ex3: "extract_int (iss st2) = (x3, s3)"
        by (cases "extract_int (iss st2)")
      have x3: "x3 = None"
      proof (cases x3)
        case None
        then show ?thesis .
      next
        case (Some lab3)
        from while_label_more [OF ex3 [unfolded Some], of sep lsep 0] t2 one
        show ?thesis unfolding w by simp
      qed
      with ex3 have w3: "while_label sep lsep 0 st2 = st2\<lparr>iss := s3\<rparr>"
        by (simp add: while_label_None)
      from failbit_extract_int [of "iss st2"] ex3 x3 have "failbit s3" by simp
      then have "peek (skip_spaces s3) = EOF"
        by (simp add: skip_spaces_failed peek_def)
      then show ?thesis
        unfolding w w3 al using False eof by simp
    qed
  qed
qed

lemma for_label_list_flag:
  "is_multi_label (for_label_list sep lsep st v)
     = (is_multi_label st \<or> peek (skip_spaces (iss st)) = char_to_int lsep)"
  using while_label_inv [of sep lsep v "st\<lparr>iss := skip_spaces (iss st)\<rparr>"]
  by (simp add: for_label_list_def Let_def)

lemma for_label_list_inv:
  "filename (for_label_list sep lsep st v) = filename st \<and>
   set (buf (iss (for_label_list sep lsep st v))) \<subseteq> set (buf (iss st)) \<and>
   length (labels (for_label_list sep lsep st v)) = length (labels st) \<and>
   total_labels st \<le> total_labels (for_label_list sep lsep st v) \<and>
   (v < length (labels st) \<longrightarrow>
      total_labels (for_label_list sep lsep st v)
        - int (length (concat (labels (for_label_list sep lsep st v))))
        = total_labels st - int (length (concat (labels st))))"
proof -
  define st1 where "st1 = st\<lparr>iss := skip_spaces (iss st)\<rparr>"
  have s1: "set (buf (iss st1)) \<subseteq> set (buf (iss st))"
    using buf_skip_spaces [of "iss st"] by (simp add: st1_def)
  show ?thesis
  proof (cases "peek (iss st1) = char_to_int lsep")
    case True
    then have "for_label_list sep lsep st v = st1\<lparr>iss := ignore (iss st1), is_multi_label := True\<rparr>"
      by (simp add: for_label_list_def st1_def)
    then show ?thesis
      using s1 buf_ignore [of "iss st1"] by (auto simp: st1_def)
  next
    case False
    then have eq: "for_label_list sep lsep st v = while_label sep lsep v st1"
      by (simp add: for_label_list_def st1_def)
    show ?thesis
      unfolding eq using while_label_inv [of sep lsep v st1] s1 by (auto simp: st1_def)
  qed
qed

lemma for_label_list_max:
  assumes "v < length (labels st)"
  shows "max_label_id st \<le> max_label_id (for_label_list sep lsep st v) \<and>
     ((\<forall>x \<in> set (concat (labels st)). x \<le> max_label_id st) \<longrightarrow>
      (\<forall>x \<in> set (concat (labels (for_label_list sep lsep st v))).
          x \<le> max_label_id (for_label_list sep lsep st v))) \<and>
     (max_label_id (for_label_list sep lsep st v) = max_label_id st \<or>
      max_label_id (for_label_list sep lsep st v)
        \<in> set (concat (labels (for_label_list sep lsep st v)))) \<and>
     set (concat (labels st)) \<subseteq> set (concat (labels (for_label_list sep lsep st v)))"
proof (cases "peek (iss (st\<lparr>iss := skip_spaces (iss st)\<rparr>)) = char_to_int lsep")
  case True
  then show ?thesis by (simp add: for_label_list_def)
next
  case False
  then have eq: "for_label_list sep lsep st v
      = while_label sep lsep v (st\<lparr>iss := skip_spaces (iss st)\<rparr>)"
    by (simp add: for_label_list_def)
  show ?thesis
    unfolding eq using while_label_max [of v "st\<lparr>iss := skip_spaces (iss st)\<rparr>" sep lsep] assms
    by simp
qed

lemma read_line_entry:
  assumes nc: "\<not> (l \<noteq> [] \<and> hd l = CHR ''#'')"
  shows "\<exists>st' e. read_line sep lsep acc l = (st', snd acc @ [e]) \<and>
     length (snd e) = 2 \<and>
     is_multi_label st'
       = (is_multi_label (fst acc) \<or> list_starts_with_separator sep lsep l \<or> lsep = CHR 0xFF \<or>
          1 < length (concat (snd e))) \<and>
     max_label_id (fst acc) \<le> max_label_id st' \<and>
     (\<forall>x \<in> set (concat (snd e)). x \<le> max_label_id st') \<and>
     (max_label_id st' = max_label_id (fst acc) \<or> max_label_id st' \<in> set (concat (snd e)))"
proof -
  define st where "st = fst acc"
  define r where "r = extract_string (istringstream_of l)"
  define st1 where "st1 = st\<lparr>filename := (case fst r of Some f \<Rightarrow> f | None \<Rightarrow> filename st),
                     iss := skip_spaces (snd r),
                     labels := replicate NUM_LABEL_LISTS [],
                     total_labels := 0\<rparr>"
  define sa where "sa = for_label_list sep lsep st1 0"
  define sb where "sb = for_label_list sep lsep sa 1"
  define st3 where "st3 = (if total_labels sb > 1 then sb\<lparr>is_multi_label := True\<rparr> else sb)"
  define s0 where "s0 = labels_start l"
  define G1 where "G1 = (fst (extract_int s0) \<noteq> None \<and>
           peek (after_label sep s0) = char_to_int lsep \<and>
           peek (skip_spaces (ignore (after_label sep s0))) = char_to_int lsep)"
  have pc: "peek (istringstream_of l) \<noteq> char_to_int CHR ''#''"
    using nc by (simp add: peek_comment)
  have rl: "read_line sep lsep acc l = (st3, snd acc @ [(filename st3, labels st3)])"
    unfolding st3_def sb_def sa_def st1_def r_def st_def
    by (simp add: read_line_def pc Let_def upt_two)
  have l1: "length (labels st1) = 2" "labels st1 = [[], []]" "total_labels st1 = 0"
    "max_label_id st1 = max_label_id st" "is_multi_label st1 = is_multi_label st"
    "iss st1 = s0"
    by (simp_all add: st1_def NUM_LABEL_LISTS_def numeral_2_eq_2 s0_def labels_start_def r_def)
  have ss0: "skip_spaces s0 = s0"
    by (simp add: s0_def labels_start_def skip_spaces_idem)
  have lsts: "list_starts_with_separator sep lsep l = (peek s0 = char_to_int lsep \<or> G1)"
    by (simp add: list_starts_with_separator_def Let_def s0_def G1_def)
  note ia = for_label_list_inv [of sep lsep st1 0, folded sa_def]
  note ib = for_label_list_inv [of sep lsep sa 1, folded sb_def]
  have la: "length (labels sa) = 2" using ia l1 by simp
  have lb: "length (labels sb) = 2" using ib la by simp
  have ta: "total_labels sa = int (length (concat (labels sa)))"
    using ia l1 by simp
  have tb: "total_labels sb = int (length (concat (labels sb)))"
    using ib la ta by simp
  have tab: "total_labels sa \<le> total_labels sb"
    using ib by simp
  have ma: "max_label_id st1 \<le> max_label_id sa \<and>
     (\<forall>x \<in> set (concat (labels sa)). x \<le> max_label_id sa) \<and>
     (max_label_id sa = max_label_id st1 \<or> max_label_id sa \<in> set (concat (labels sa)))"
    using for_label_list_max [of 0 st1 sep lsep, folded sa_def] l1 by simp
  have mb: "max_label_id sa \<le> max_label_id sb \<and>
     (\<forall>x \<in> set (concat (labels sb)). x \<le> max_label_id sb) \<and>
     (max_label_id sb = max_label_id sa \<or> max_label_id sb \<in> set (concat (labels sb))) \<and>
     set (concat (labels sa)) \<subseteq> set (concat (labels sb))"
    using for_label_list_max [of 1 sa sep lsep, folded sb_def] la ma by simp
  have m3: "max_label_id st3 = max_label_id sb" "labels st3 = labels sb"
    by (simp_all add: st3_def)
  have f3: "is_multi_label st3 = (is_multi_label sb \<or> 1 < length (concat (labels sb)))"
    by (auto simp: st3_def tb)
  have fa: "is_multi_label sa = (is_multi_label st \<or> peek s0 = char_to_int lsep)"
    unfolding sa_def for_label_list_flag by (simp add: l1 ss0)
  have fb: "is_multi_label sb = (is_multi_label sa \<or> peek (skip_spaces (iss sa)) = char_to_int lsep)"
    unfolding sb_def for_label_list_flag ..
  have flag: "is_multi_label st3
       = (is_multi_label st \<or> list_starts_with_separator sep lsep l \<or> lsep = CHR 0xFF \<or>
          1 < length (concat (labels sb)))"
  proof (cases "peek s0 = char_to_int lsep \<or> 1 < length (concat (labels sb))")
    case True
    then show ?thesis
      unfolding f3 fb fa lsts by auto
  next
    case False
    then have p0: "peek s0 \<noteq> char_to_int lsep" and few: "\<not> 1 < length (concat (labels sb))"
      by simp_all
    define st1' where "st1' = st1\<lparr>iss := skip_spaces (iss st1)\<rparr>"
    have i1': "iss st1' = s0" "total_labels st1' = 0"
      by (simp_all add: st1'_def l1 ss0)
    have sa_eq: "sa = while_label sep lsep 0 st1'"
      using p0 by (simp add: sa_def for_label_list_def st1'_def l1 ss0)
    have "total_labels sa \<le> 1"
      using tab tb few by simp
    then have one: "total_labels (while_label sep lsep 0 st1') \<le> 1"
      by (simp add: sa_eq)
    from second_list_start [OF i1'(2) one, unfolded i1'(1), folded sa_eq G1_def]
    have "(peek (skip_spaces (iss sa)) = char_to_int lsep) = (lsep = CHR 0xFF \<or> G1)" .
    then show ?thesis
      unfolding f3 fb fa lsts using p0 few by auto
  qed
  have "max_label_id st \<le> max_label_id st3"
    using ma mb l1 m3 by simp
  moreover have "\<forall>x \<in> set (concat (labels st3)). x \<le> max_label_id st3"
    using mb m3 by simp
  moreover have "max_label_id st3 = max_label_id st \<or> max_label_id st3 \<in> set (concat (labels st3))"
    using ma mb l1 m3 by (auto simp del: set_concat)
  moreover note flag [folded m3(2)]
  ultimately show ?thesis
    unfolding rl using lb m3
    by (auto simp: st_def simp del: set_concat)
qed

lemma read_line_comment':
  "l \<noteq> [] \<and> hd l = CHR ''#'' \<Longrightarrow> read_line sep lsep acc l = acc"
  by (cases l) (simp_all add: read_line_comment)

lemma read_lines_inv:
  fixes sep lsep ls
  defines "R \<equiv> foldl (read_line sep lsep) (locals0, []) ls"
  shows "(is_multi_label (fst R) =
            ((\<exists>e \<in> set (snd R). 1 < length (concat (snd e))) \<or>
             (\<exists>l \<in> set ls. \<not> (l \<noteq> [] \<and> hd l = CHR ''#'') \<and>
                (list_starts_with_separator sep lsep l \<or> lsep = CHR 0xFF)))) \<and>
         0 \<le> max_label_id (fst R) \<and>
         (\<forall>e \<in> set (snd R). \<forall>x \<in> set (concat (snd e)). x \<le> max_label_id (fst R)) \<and>
         (max_label_id (fst R) = 0 \<or>
            (\<exists>e \<in> set (snd R). max_label_id (fst R) \<in> set (concat (snd e)))) \<and>
         length (snd R) = length (filter (\<lambda>l. \<not> (l \<noteq> [] \<and> hd l = CHR ''#'')) ls) \<and>
         (\<forall>e \<in> set (snd R). length (snd e) = 2)"
  unfolding R_def
proof (induction ls rule: rev_induct)
  case Nil
  show ?case by (simp add: locals0_def)
next
  case (snoc l ls)
  define A where "A = foldl (read_line sep lsep) (locals0, []) ls"
  note ih = snoc.IH [folded A_def]
  note i1 = ih [THEN conjunct1]
  note i4 = ih [THEN conjunct2, THEN conjunct1]
  note i5 = ih [THEN conjunct2, THEN conjunct2, THEN conjunct1]
  note i6 = ih [THEN conjunct2, THEN conjunct2, THEN conjunct2, THEN conjunct1]
  note i7 = ih [THEN conjunct2, THEN conjunct2, THEN conjunct2, THEN conjunct2, THEN conjunct1]
  note i8 = ih [THEN conjunct2, THEN conjunct2, THEN conjunct2, THEN conjunct2, THEN conjunct2]
  have step: "foldl (read_line sep lsep) (locals0, []) (ls @ [l]) = read_line sep lsep A l"
    by (simp add: A_def)
  show ?case
  proof (cases "l \<noteq> [] \<and> hd l = CHR ''#''")
    case True
    then have "read_line sep lsep A l = A"
      by (rule read_line_comment')
    have f: "filter (\<lambda>l. \<not> (l \<noteq> [] \<and> hd l = CHR ''#'')) (ls @ [l])
        = filter (\<lambda>l. \<not> (l \<noteq> [] \<and> hd l = CHR ''#'')) ls"
      using True by simp
    have s1: "(\<exists>l' \<in> set (ls @ [l]). \<not> (l' \<noteq> [] \<and> hd l' = CHR ''#'') \<and>
                (list_starts_with_separator sep lsep l' \<or> lsep = CHR 0xFF))
        = (\<exists>l' \<in> set ls. \<not> (l' \<noteq> [] \<and> hd l' = CHR ''#'') \<and>
                (list_starts_with_separator sep lsep l' \<or> lsep = CHR 0xFF))"
      using True by auto
    from \<open>read_line sep lsep A l = A\<close>
    have R: "foldl (read_line sep lsep) (locals0, []) (ls @ [l]) = A"
      unfolding step .
    show ?thesis
      unfolding R f s1 by (rule ih)
  next
    case False
    from read_line_entry [OF False, of sep lsep A]
    obtain st' e where rl: "read_line sep lsep A l = (st', snd A @ [e])"
      and e2: "length (snd e) = 2"
      and flag: "is_multi_label st'
         = (is_multi_label (fst A) \<or> list_starts_with_separator sep lsep l \<or> lsep = CHR 0xFF \<or>
            1 < length (concat (snd e)))"
      and m1: "max_label_id (fst A) \<le> max_label_id st'"
      and m2: "\<forall>x \<in> set (concat (snd e)). x \<le> max_label_id st'"
      and m3: "max_label_id st' = max_label_id (fst A) \<or> max_label_id st' \<in> set (concat (snd e))"
      by blast
    have c1: "is_multi_label st' =
            ((\<exists>e' \<in> set (snd A @ [e]). 1 < length (concat (snd e'))) \<or>
             (\<exists>l' \<in> set (ls @ [l]). \<not> (l' \<noteq> [] \<and> hd l' = CHR ''#'') \<and>
                (list_starts_with_separator sep lsep l' \<or> lsep = CHR 0xFF)))"
      unfolding flag i1 using False by auto
    have c4: "0 \<le> max_label_id st'"
      using i4 m1 by simp
    have c5: "\<forall>e' \<in> set (snd A @ [e]). \<forall>x \<in> set (concat (snd e')). x \<le> max_label_id st'"
    proof (intro ballI)
      fix e' x assume e': "e' \<in> set (snd A @ [e])" and x: "x \<in> set (concat (snd e'))"
      show "x \<le> max_label_id st'"
      proof (cases "e' = e")
        case True
        with m2 x show ?thesis by blast
      next
        case False
        with e' have "e' \<in> set (snd A)" by simp
        with i5 x have "x \<le> max_label_id (fst A)" by blast
        with m1 show ?thesis by simp
      qed
    qed
    have c6: "max_label_id st' = 0 \<or>
            (\<exists>e' \<in> set (snd A @ [e]). max_label_id st' \<in> set (concat (snd e')))"
    proof (cases "max_label_id st' = max_label_id (fst A)")
      case True
      with i6 show ?thesis by (auto simp del: set_concat)
    next
      case False
      with m3 have "max_label_id st' \<in> set (concat (snd e))" by simp
      then show ?thesis by (auto simp del: set_concat)
    qed
    have c7: "length (snd A @ [e])
        = length (filter (\<lambda>l. \<not> (l \<noteq> [] \<and> hd l = CHR ''#'')) (ls @ [l]))"
      using i7 False by simp
    have c8: "\<forall>e' \<in> set (snd A @ [e]). length (snd e') = 2"
      using i8 e2 by auto
    show ?thesis
      unfolding step rl fst_conv snd_conv
      by (intro conjI c1 c4 c5 c6 c7 c8)
  qed
qed

text \<open>The comparison with a separator byte of 0x80 or more, evaluated. The byte 0xE9 is
  recognised neither as label list separator where a list starts nor as label separator
  behind a label (the label 4 behind it is not read). With the byte 0xFF as label list
  separator, that byte in the line is not recognised either, and the end of the line
  counts as the separator.\<close>

lemma separator_bytes:
  "\<not> is_multi_label (fst (read_manifest (CHR '','') (CHR 0xE9) (''a.jpg '' @ [CHR 0xE9]))) \<and>
   snd (read_manifest (CHR 0xE9) (CHR '';'') (''a.jpg 3'' @ [CHR 0xE9] @ ''4''))
     = [(''a.jpg'', [[3], []])] \<and>
   snd (read_manifest (CHR '','') (CHR 0xFF) (''a.jpg 3'' @ [CHR 0xFF] @ ''4''))
     = [(''a.jpg'', [[3], []])] \<and>
   is_multi_label (fst (read_manifest (CHR '','') (CHR 0xFF) ''a.jpg 3'')) \<and>
   is_multi_label (fst (read_manifest (CHR '','') (CHR 0xFF) ''a.jpg''))"
  by code_simp

subsection \<open>The setup\<close>

lemma setup_cursor_Inr:
  assumes "setup_cursor env p parsed = Inr s"
  shows "num_labels_per_line s
           = (if is_multi_label (fst parsed) then max_label_id (fst parsed) + 1 else 1)"
    and "LABEL_VALUES s = [USE_LABEL env, ignore_label env]"
    and "\<not> shuffle p \<Longrightarrow> lines s = snd parsed"
    and "lines_id s < length (lines s) \<or> (rand_skip p = 0 \<and> lines_id s = 0)"
    and "rand_skip p \<noteq> 0 \<Longrightarrow>
           lines_id s = caffe_rng_rand env (if shuffle p then 1 else 0) mod rand_skip p"
  using assms
  by (auto simp: setup_cursor_def Let_def ShuffleImages_def split: if_splits sum.splits)

lemma setup_shapes_Inr:
  assumes "setup_shapes env p s = Inr s'"
  shows "num_labels_per_line s' = num_labels_per_line s"
    and "\<forall>b \<in> set (prefetch s'). label_shape b = [batch_size p, num_labels_per_line s]"
    and "top_blobs s' ! 1 = [batch_size p, num_labels_per_line s]"
    and "lines s' = lines s" and "lines_id s' = lines_id s" and "0 < batch_size p"
    and "lines_id s < length (lines s)"
  using assms
  by (auto simp: setup_shapes_def Let_def read_image_def Reshape_label_def Reshape_data_def
      split: if_splits sum.splits option.splits)

subsection \<open>Claims on the parser\<close>

text \<open>
  Claim C5, as the code has it: a line whose first character is \<open>#\<close> is skipped as a
  comment and contributes no entry; every other line contributes exactly one entry. The
  test is \<^verbatim>\<open>iss.peek() == '#'\<close> on the fresh stream, so white space before the
  \<open>#\<close> is not skipped.
\<close>

theorem C5_comment_first_character:
  "read_line sep lsep acc (CHR ''#'' # rest) = acc \<and>
   length (snd (read_manifest sep lsep src))
     = length (filter (\<lambda>l. \<not> (l \<noteq> [] \<and> hd l = CHR ''#'')) (getlines [] src))"
  using read_lines_inv [of sep lsep "getlines [] src"]
  by (simp add: read_line_comment read_manifest_def)

text \<open>The comment line \<^verbatim>\<open>#x 1\<close> alone: no entry.\<close>

theorem C5_comment_first_character_witness:
  "read_line (CHR '','') (CHR '';'') (locals0, []) ''#x 1'' = (locals0, []) \<and>
   length (snd (read_manifest (CHR '','') (CHR '';'') ''#x 1'')) = 0"
proof -
  have "getlines [] ''#x 1'' = [''#x 1'']"
    by code_simp
  then show ?thesis
    using C5_comment_first_character [of "CHR '',''" "CHR '';''" "(locals0, [])" "''x 1''" "''#x 1''"]
    by simp
qed

text \<open>
  Claim C5 as stated fails: the first character of the line \<^verbatim>\<open> #x\<close> that is not a
  space is \<open>#\<close>, and the line contributes the entry \<^verbatim>\<open>#x\<close>.
\<close>

theorem C5_counterexample:
  "hd (dropWhile isspace '' #x'') = CHR ''#'' \<and>
   snd (read_manifest (CHR '','') (CHR '';'') '' #x'') = [(''#x'', [[], []])]"
  by code_simp

text \<open>
  Claim C1 as stated fails: the only line of the manifest \<^verbatim>\<open>a.jpg 3;\<close> contains the
  label list separator, and the dataset is not marked multi-label (the separator met
  after a label ends the list at line 100 without setting the flag).
\<close>

theorem C1_counterexample:
  "CHR '';'' \<in> set ''a.jpg 3;'' \<and>
   getlines [] ''a.jpg 3;'' = [''a.jpg 3;''] \<and>
   \<not> is_multi_label (fst (read_manifest (CHR '','') (CHR '';'') ''a.jpg 3;'')) \<and>
   num_labels_per_line (projr (DataLayerSetUp example_env (example_param ''a.jpg 3;''))) = 1"
  by code_simp

text \<open>
  Claim C1, as the code has it. The dataset is marked multi-label exactly when some entry
  has more than one label in total over its two lists, or some line that is not a comment
  has the label list separator where one of its two label lists starts (behind the file
  name and blanks; or behind a first list of one label which a list separator ended, and
  blanks), or the label list separator is the byte 0xFF, which equals \<^verbatim>\<open>EOF\<close>, and
  the manifest has a line that is not a comment. Unless the separator is that byte, a
  dataset marked multi-label has a line that is not a comment and contains the label list
  separator, or an entry with more than one label. \<open>max_label_id\<close> is the largest
  label of the dataset, or 0 when no label exceeds 0. When the setup succeeds,
  \<open>num_labels_per_line\<close> is \<open>max_label_id + 1\<close> if the dataset is multi-label and 1
  otherwise, and the label tensor of every batch and of the top has the shape
  \<open>[batch_size, num_labels_per_line]\<close>.
\<close>

theorem C1_multi_label_and_label_width:
  fixes env :: "('img, 'px, 'rng) collaborators"
  shows "let sep = hd (label_separator p); lsep = hd (label_list_separator p);
      R = read_manifest sep lsep (source p);
      ls = filter (\<lambda>l. \<not> (l \<noteq> [] \<and> hd l = CHR ''#'')) (getlines [] (source p))
    in (is_multi_label (fst R) =
          ((\<exists>e \<in> set (snd R). 1 < length (concat (snd e))) \<or>
           (\<exists>l \<in> set ls. list_starts_with_separator sep lsep l \<or> lsep = CHR 0xFF))) \<and>
       (lsep \<noteq> CHR 0xFF \<and> is_multi_label (fst R) \<longrightarrow>
          (\<exists>l \<in> set ls. lsep \<in> set l) \<or> (\<exists>e \<in> set (snd R). 1 < length (concat (snd e)))) \<and>
       0 \<le> max_label_id (fst R) \<and>
       (\<forall>e \<in> set (snd R). \<forall>x \<in> set (concat (snd e)). x \<le> max_label_id (fst R)) \<and>
       (max_label_id (fst R) = 0 \<or>
          (\<exists>e \<in> set (snd R). max_label_id (fst R) \<in> set (concat (snd e)))) \<and>
       (\<forall>s. DataLayerSetUp env p = Inr s \<longrightarrow>
          num_labels_per_line s
            = (if is_multi_label (fst R) then max_label_id (fst R) + 1 else 1) \<and>
          (\<forall>b \<in> set (prefetch s). label_shape b = [batch_size p, num_labels_per_line s]) \<and>
          top_blobs s ! 1 = [batch_size p, num_labels_per_line s])"
proof -
  define sep where "sep = hd (label_separator p)"
  define lsep where "lsep = hd (label_list_separator p)"
  define R where "R = foldl (read_line sep lsep) (locals0, []) (getlines [] (source p))"
  define ls where "ls = filter (\<lambda>l. \<not> (l \<noteq> [] \<and> hd l = CHR ''#'')) (getlines [] (source p))"
  have Req: "read_manifest sep lsep (source p) = R"
    by (simp add: R_def read_manifest_def)
  have cv: "(\<exists>l \<in> set (getlines [] (source p)). \<not> (l \<noteq> [] \<and> hd l = CHR ''#'') \<and> Q l)
      = (\<exists>l \<in> set ls. Q l)" for Q
    unfolding ls_def by auto
  note inv = read_lines_inv [of sep lsep "getlines [] (source p)", folded R_def, unfolded cv]
  note iff = inv [THEN conjunct1]
  have only: "(\<exists>l \<in> set ls. lsep \<in> set l) \<or> (\<exists>e \<in> set (snd R). 1 < length (concat (snd e)))"
    if "lsep \<noteq> CHR 0xFF \<and> is_multi_label (fst R)"
  proof (cases "\<exists>e \<in> set (snd R). 1 < length (concat (snd e))")
    case True
    then show ?thesis ..
  next
    case False
    with iff that obtain l where "l \<in> set ls" "list_starts_with_separator sep lsep l"
      by blast
    with list_starts_in_line [of sep lsep l] that show ?thesis by blast
  qed
  have stp: "num_labels_per_line s
            = (if is_multi_label (fst R) then max_label_id (fst R) + 1 else 1) \<and>
          (\<forall>b \<in> set (prefetch s). label_shape b = [batch_size p, num_labels_per_line s]) \<and>
          top_blobs s ! 1 = [batch_size p, num_labels_per_line s]"
    if a: "DataLayerSetUp env p = Inr s" for s
  proof -
    from a obtain s0 where c: "setup_cursor env p R = Inr s0"
      and sh: "setup_shapes env p s0 = Inr s"
      by (auto simp: DataLayerSetUp_def Req [unfolded sep_def lsep_def] split: if_splits sum.splits)
    from setup_cursor_Inr(1) [OF c] setup_shapes_Inr(1,2,3) [OF sh]
    show ?thesis by simp
  qed
  show ?thesis
    unfolding Let_def sep_def [symmetric] lsep_def [symmetric] Req ls_def [symmetric]
    apply (intro conjI)
         apply (rule iff)
        using only apply blast
       apply (rule inv [THEN conjunct2, THEN conjunct1])
      apply (rule inv [THEN conjunct2, THEN conjunct2, THEN conjunct1])
     apply (rule inv [THEN conjunct2, THEN conjunct2, THEN conjunct2, THEN conjunct1])
    using stp apply blast
    done
qed

text \<open>The manifest of the spec's example, with 8 label columns; and the line
  \<^verbatim>\<open>a.jpg 3;;\<close>, with one label, marked multi-label by the separator at the start of
  its second list.\<close>

theorem C1_multi_label_and_label_width_witness:
  "(\<exists>e \<in> set (snd (read_manifest (CHR '','') (CHR '';'') (''a.jpg 3,7;2'' @ [CHR 0x0A] @ ''c.jpg 0''))).
      1 < length (concat (snd e))) \<and>
   is_multi_label (fst (read_manifest (CHR '','') (CHR '';'') (''a.jpg 3,7;2'' @ [CHR 0x0A] @ ''c.jpg 0''))) \<and>
   DataLayerSetUp example_env (example_param (''a.jpg 3,7;2'' @ [CHR 0x0A] @ ''c.jpg 0''))
     = Inr (projr (DataLayerSetUp example_env (example_param (''a.jpg 3,7;2'' @ [CHR 0x0A] @ ''c.jpg 0'')))) \<and>
   num_labels_per_line
     (projr (DataLayerSetUp example_env (example_param (''a.jpg 3,7;2'' @ [CHR 0x0A] @ ''c.jpg 0'')))) = 8 \<and>
   list_all (\<lambda>b. label_shape b = [2, 8])
     (prefetch
        (projr (DataLayerSetUp example_env (example_param (''a.jpg 3,7;2'' @ [CHR 0x0A] @ ''c.jpg 0''))))) \<and>
   snd (read_manifest (CHR '','') (CHR '';'') ''a.jpg 3;;'') = [(''a.jpg'', [[3], []])] \<and>
   list_starts_with_separator (CHR '','') (CHR '';'') ''a.jpg 3;;'' \<and>
   is_multi_label (fst (read_manifest (CHR '','') (CHR '';'') ''a.jpg 3;;''))"
proof -
  define src where "src = ''a.jpg 3,7;2'' @ [CHR 0x0A] @ ''c.jpg 0''"
  define s where "s = projr (DataLayerSetUp example_env (example_param src))"
  have p: "hd (label_separator (example_param src)) = CHR '',''"
    "hd (label_list_separator (example_param src)) = CHR '';''"
    "source (example_param src) = src" "batch_size (example_param src) = 2" for src
    by (simp_all add: example_param_def)
  have e: "snd (read_manifest (CHR '','') (CHR '';'') src)
      = [(''a.jpg'', [[3, 7], [2]]), (''c.jpg'', [[0], []])]"
    unfolding src_def by code_simp
  have ex: "\<exists>e \<in> set (snd (read_manifest (CHR '','') (CHR '';'') src)). 1 < length (concat (snd e))"
    unfolding e by simp
  have m: "max_label_id (fst (read_manifest (CHR '','') (CHR '';'') src)) = 7"
    unfolding src_def by code_simp
  have r: "\<not> isl (DataLayerSetUp example_env (example_param src))"
    unfolding src_def by code_simp
  then have su: "DataLayerSetUp example_env (example_param src) = Inr s"
    by (simp add: s_def)
  note c1 = C1_multi_label_and_label_width [of "example_param src" example_env,
      unfolded Let_def p]
  from c1 ex have mu: "is_multi_label (fst (read_manifest (CHR '','') (CHR '';'') src))"
    by blast
  from c1 su have "num_labels_per_line s
            = (if is_multi_label (fst (read_manifest (CHR '','') (CHR '';'') src))
               then max_label_id (fst (read_manifest (CHR '','') (CHR '';'') src)) + 1 else 1) \<and>
          (\<forall>b \<in> set (prefetch s). label_shape b = [2, num_labels_per_line s])"
    by blast
  with mu m have w: "num_labels_per_line s = 8 \<and> (\<forall>b \<in> set (prefetch s). label_shape b = [2, 8])"
    by simp
  have g: "getlines [] ''a.jpg 3;;'' = [''a.jpg 3;;'']"
    by code_simp
  have e2: "snd (read_manifest (CHR '','') (CHR '';'') ''a.jpg 3;;'') = [(''a.jpg'', [[3], []])]"
    by code_simp
  have l2: "list_starts_with_separator (CHR '','') (CHR '';'') ''a.jpg 3;;''"
    by code_simp
  note c2 = C1_multi_label_and_label_width [of "example_param ''a.jpg 3;;''" example_env,
      unfolded Let_def p g]
  from c2 l2 have mu2: "is_multi_label (fst (read_manifest (CHR '','') (CHR '';'') ''a.jpg 3;;''))"
    by simp
  from ex mu su w e2 l2 mu2 show ?thesis
    unfolding s_def src_def list_all_iff by blast
qed

subsection \<open>Claims on the setup\<close>

text \<open>
  Claim C9 against the code: an empty manifest gives an empty dataset. With
  \<open>rand_skip = 0\<close> the setup then reads \<^verbatim>\<open>lines_[lines_id_]\<close> at line 141 with
  no check of the size, outside the empty vector, before the \<^verbatim>\<open>CHECK\<close> of line 143
  can be reached; with \<open>rand_skip\<close> set, the \<^verbatim>\<open>CHECK_GT\<close> of line 137 fails
  first.
\<close>

theorem C9_empty_manifest:
  "snd (read_manifest sep lsep []) = [] \<and>
   DataLayerSetUp example_env (example_param []) = Inl Undefined \<and>
   DataLayerSetUp example_env ((example_param [])\<lparr>rand_skip := 3\<rparr>)
     = Inl (CHECK_failed Enough_points_to_skip)"
proof -
  have "snd (read_manifest sep lsep []) = []"
    by (simp add: read_manifest_def)
  moreover have "DataLayerSetUp example_env (example_param []) = Inl Undefined"
    by code_simp
  moreover have "DataLayerSetUp example_env ((example_param [])\<lparr>rand_skip := 3\<rparr>)
     = Inl (CHECK_failed Enough_points_to_skip)"
    by code_simp
  ultimately show ?thesis by simp
qed

text \<open>
  Claim C6 as stated fails: with \<open>rand_skip = 5\<close> and a dataset of 3 entries the setup
  succeeds, with the cursor on the drawn offset \<open>7 mod 5 = 2\<close>.
\<close>

theorem C6_counterexample:
  "rand_skip ((example_param (''a.jpg 0'' @ [CHR 0x0A] @ ''b.jpg 1'' @ [CHR 0x0A] @ ''c.jpg 2''))
      \<lparr>rand_skip := 5\<rparr>) = 5 \<and>
   length (snd (read_manifest (CHR '','') (CHR '';'')
      (''a.jpg 0'' @ [CHR 0x0A] @ ''b.jpg 1'' @ [CHR 0x0A] @ ''c.jpg 2''))) = 3 \<and>
   \<not> isl (DataLayerSetUp example_env
      ((example_param (''a.jpg 0'' @ [CHR 0x0A] @ ''b.jpg 1'' @ [CHR 0x0A] @ ''c.jpg 2''))
        \<lparr>rand_skip := 5\<rparr>)) \<and>
   lines_id (projr (DataLayerSetUp example_env
      ((example_param (''a.jpg 0'' @ [CHR 0x0A] @ ''b.jpg 1'' @ [CHR 0x0A] @ ''c.jpg 2''))
        \<lparr>rand_skip := 5\<rparr>))) = 2"
  by code_simp

text \<open>
  Claim C6, as the code has it. When \<open>rand_skip\<close> is not zero and the checks before
  the parser pass, the offset is the drawn number modulo \<open>rand_skip\<close>, so it lies in
  \<open>[0, rand_skip)\<close>; the setup fails with "Not enough points to skip" exactly when
  this offset is not below the size of the dataset, which cannot happen when
  \<open>rand_skip\<close> is at most that size; a setup that succeeds has the cursor on the
  offset. An offset below the size of the dataset does not make the setup succeed: it
  succeeds exactly when moreover the image of the line at the offset can be loaded, the
  batch size is positive and the inferred shape has an axis; when that image cannot be
  loaded the setup fails with "Could not load".
\<close>

theorem C6_random_skip:
  fixes env :: "('img, 'px, 'rng) collaborators"
  assumes "rand_skip p \<noteq> 0"
    and "label_separator p \<noteq> []" and "label_list_separator p \<noteq> []"
    and "(new_height p = 0 \<and> new_width p = 0) \<or> (new_height p > 0 \<and> new_width p > 0)"
    and "hd (label_separator p) \<noteq> hd (label_list_separator p)"
    and "R = read_manifest (hd (label_separator p)) (hd (label_list_separator p)) (source p)"
    and "\<not> (is_multi_label (fst R) \<and> max_label_id (fst R) = INT_MAX)"
    and "shuffle p \<longrightarrow>
           length (fst (shuffle_fn env (RNG env (caffe_rng_rand env 0)) (snd R))) = length (snd R)"
    and "skip = caffe_rng_rand env (if shuffle p then 1 else 0) mod rand_skip p"
  shows "skip < rand_skip p \<and>
     ((DataLayerSetUp env p = Inl (CHECK_failed Enough_points_to_skip)) = (length (snd R) \<le> skip)) \<and>
     (\<forall>s. DataLayerSetUp env p = Inr s \<longrightarrow> lines_id s = skip \<and> skip < length (lines s)) \<and>
     (rand_skip p \<le> length (snd R) \<longrightarrow>
        DataLayerSetUp env p \<noteq> Inl (CHECK_failed Enough_points_to_skip)) \<and>
     (let ls = (if shuffle p then fst (shuffle_fn env (RNG env (caffe_rng_rand env 0)) (snd R))
                else snd R)
      in ((\<exists>s. DataLayerSetUp env p = Inr s)
            = (skip < length (snd R) \<and> 0 < batch_size p \<and>
               (\<exists>cv_img. image_at env p ls skip = Some cv_img \<and> InferBlobShape env cv_img \<noteq> []))) \<and>
         (skip < length (snd R) \<and> image_at env p ls skip = None \<longrightarrow>
            DataLayerSetUp env p = Inl (CHECK_failed Could_load)))"
proof -
  define ls where "ls = (if shuffle p then fst (shuffle_fn env (RNG env (caffe_rng_rand env 0)) (snd R))
                else snd R)"
  have sk: "skip < rand_skip p"
    using assms(1,9) by simp
  have d: "DataLayerSetUp env p
      = (case setup_cursor env p R of Inl e \<Rightarrow> Inl e | Inr s \<Rightarrow> setup_shapes env p s)"
    using assms(2-6) by (auto simp: DataLayerSetUp_def)
  have shp: "setup_shapes env p s \<noteq> Inl (CHECK_failed Enough_points_to_skip)" for s
    by (auto simp: setup_shapes_def Let_def read_image_def split: sum.splits option.splits)
  have ok: "(\<exists>s'. setup_shapes env p s = Inr s')
      = (0 < batch_size p \<and>
         (\<exists>cv_img. image_at env p (lines s) (lines_id s) = Some cv_img \<and>
            InferBlobShape env cv_img \<noteq> []))"
    if "lines_id s < length (lines s)" for s :: "('px, 'rng) layer"
    using that
    by (auto simp: setup_shapes_def Let_def read_image_def image_at_def split: option.splits)
  show ?thesis
  proof (cases "length (snd R) \<le> skip")
    case True
    then have "setup_cursor env p R = Inl (CHECK_failed Enough_points_to_skip)"
      using assms(1,7,8,9)
      by (cases "shuffle p") (auto simp: setup_cursor_def Let_def ShuffleImages_def)
    with True sk show ?thesis
      unfolding d Let_def by simp
  next
    case False
    then obtain s0 where c: "setup_cursor env p R = Inr s0" and i: "lines_id s0 = skip"
      and l: "length (lines s0) = length (snd R)" and ll: "lines s0 = ls"
      using assms(1,7,8,9) unfolding ls_def
      by (cases "shuffle p") (auto simp: setup_cursor_def Let_def ShuffleImages_def)
    have "lines_id s = skip \<and> skip < length (lines s)" if "DataLayerSetUp env p = Inr s" for s
      using that setup_shapes_Inr(4,5) [of env p s0 s] c i l False
      unfolding d by simp
    moreover have "(\<exists>s. DataLayerSetUp env p = Inr s)
           = (skip < length (snd R) \<and> 0 < batch_size p \<and>
              (\<exists>cv_img. image_at env p ls skip = Some cv_img \<and> InferBlobShape env cv_img \<noteq> []))"
    proof -
      have "lines_id s0 < length (lines s0)"
        using False i l by simp
      from ok [OF this] False show ?thesis
        unfolding d c i ll by simp
    qed
    moreover have "DataLayerSetUp env p = Inl (CHECK_failed Could_load)"
      if "image_at env p ls skip = None"
    proof -
      have "lines_id s0 < length (lines s0)"
        using False i l by simp
      then have "read_image env p s0 = Inr (image_at env p (lines s0) (lines_id s0))"
        by (simp add: read_image_def image_at_def)
      with that show ?thesis
        unfolding d c by (simp add: setup_shapes_def i ll)
    qed
    ultimately show ?thesis
      using False sk c shp unfolding d Let_def ls_def by auto
  qed
qed


text \<open>One entry, \<open>rand_skip = 5\<close>, the draw 7: the offset 2 is not below 1. Three
  entries: the offset 2 is below 3, and the image of the line at the offset cannot be
  loaded.\<close>

theorem C6_random_skip_witness:
  "rand_skip ((example_param ''a.jpg 0'')\<lparr>rand_skip := 5\<rparr>) \<noteq> 0 \<and>
   caffe_rng_rand example_env 0 mod 5 = 2 \<and>
   length (snd (read_manifest (CHR '','') (CHR '';'') ''a.jpg 0'')) = 1 \<and>
   DataLayerSetUp example_env ((example_param ''a.jpg 0'')\<lparr>rand_skip := 5\<rparr>)
     = Inl (CHECK_failed Enough_points_to_skip) \<and>
   snd (read_manifest (CHR '','') (CHR '';'')
      (''a.jpg 0'' @ [CHR 0x0A] @ ''c.jpg 1'' @ [CHR 0x0A] @ ''b.jpg 2''))
     = [(''a.jpg'', [[0], []]), (''c.jpg'', [[1], []]), (''b.jpg'', [[2], []])] \<and>
   DataLayerSetUp example_env
      ((example_param (''a.jpg 0'' @ [CHR 0x0A] @ ''c.jpg 1'' @ [CHR 0x0A] @ ''b.jpg 2''))
        \<lparr>rand_skip := 5\<rparr>)
     = Inl (CHECK_failed Could_load)"
proof -
  define p where "p = (example_param ''a.jpg 0'')\<lparr>rand_skip := 5\<rparr>"
  define R where "R = read_manifest (CHR '','') (CHR '';'') ''a.jpg 0''"
  have f: "label_separator p = '',''" "label_list_separator p = '';''" "source p = ''a.jpg 0''"
    "new_height p = 0" "new_width p = 0" "\<not> shuffle p" "rand_skip p = 5"
    by (simp_all add: p_def example_param_def)
  have r: "snd R = [(''a.jpg'', [[0], []])]" "\<not> is_multi_label (fst R)"
    unfolding R_def by code_simp+
  have d: "caffe_rng_rand example_env 0 mod 5 = 2"
    by (simp add: example_env_def)
  have "(DataLayerSetUp example_env p = Inl (CHECK_failed Enough_points_to_skip))
      = (length (snd R) \<le> 2)"
    using C6_random_skip [of p R example_env 2] f r d
    by (simp add: R_def)
  with r d f have a: "rand_skip p \<noteq> 0 \<and> length (snd R) = 1 \<and>
      DataLayerSetUp example_env p = Inl (CHECK_failed Enough_points_to_skip)"
    by simp
  define src3 where "src3 = ''a.jpg 0'' @ [CHR 0x0A] @ ''c.jpg 1'' @ [CHR 0x0A] @ ''b.jpg 2''"
  define p3 where "p3 = (example_param src3)\<lparr>rand_skip := 5\<rparr>"
  define R3 where "R3 = read_manifest (CHR '','') (CHR '';'') src3"
  have f3: "label_separator p3 = '',''" "label_list_separator p3 = '';''" "source p3 = src3"
    "new_height p3 = 0" "new_width p3 = 0" "\<not> shuffle p3" "rand_skip p3 = 5"
    "root_folder p3 = []"
    by (simp_all add: p3_def example_param_def)
  have r3: "snd R3 = [(''a.jpg'', [[0], []]), (''c.jpg'', [[1], []]), (''b.jpg'', [[2], []])]"
    "\<not> is_multi_label (fst R3)"
    unfolding R3_def src3_def by code_simp+
  have n3: "image_at example_env p3 (snd R3) 2 = None"
    by (simp add: image_at_def r3 f3 example_env_def)
  have b: "DataLayerSetUp example_env p3 = Inl (CHECK_failed Could_load)"
    using C6_random_skip [of p3 R3 example_env 2] f3 r3 d n3
    by (simp add: R3_def)
  from a d r3(1) b show ?thesis
    unfolding p_def R_def p3_def R3_def src3_def by simp
qed

subsection \<open>Claims on the labels of a slot\<close>





subsection \<open>The labels of one slot, when they fit the row\<close>

lemma for_label_id_ok:
  assumes "\<forall>x \<in> set ids. 0 \<le> off + x \<and> off + x < int (length Y)"
  shows "\<exists>Y'. for_label_id Y off v ids = Inr Y' \<and> length Y' = length Y \<and>
     (\<forall>k<length Y. Y' ! k = (if int k - off \<in> set ids then v else Y ! k))"
  using assms
proof (induction ids arbitrary: Y)
  case Nil
  then show ?case by simp
next
  case (Cons a ids)
  define Y1 where "Y1 = Y[nat (off + a) := v]"
  have w: "write_at Y (off + a) v = Inr Y1"
    using Cons.prems by (simp add: write_at_def Y1_def)
  have l1: "length Y1 = length Y" by (simp add: Y1_def)
  from Cons.prems have "\<forall>x \<in> set ids. 0 \<le> off + x \<and> off + x < int (length Y1)"
    by (simp add: l1)
  from Cons.IH [OF this] obtain Y' where r: "for_label_id Y1 off v ids = Inr Y'"
    and l: "length Y' = length Y1"
    and c: "\<forall>k<length Y1. Y' ! k = (if int k - off \<in> set ids then v else Y1 ! k)"
    by blast
  have "for_label_id Y off v (a # ids) = Inr Y'"
    by (simp add: w r)
  moreover have "\<forall>k<length Y. Y' ! k = (if int k - off \<in> set (a # ids) then v else Y ! k)"
  proof (intro allI impI)
    fix k assume k: "k < length Y"
    have "Y1 ! k = (if int k - off = a then v else Y ! k)"
      using k Cons.prems by (auto simp: Y1_def nth_list_update)
    with c k l1 show "Y' ! k = (if int k - off \<in> set (a # ids) then v else Y ! k)"
      by auto
  qed
  ultimately show ?case using l l1 by simp
qed


lemma for_v_ok:
  assumes "\<forall>x \<in> set g0 \<union> set g1. 0 \<le> off + x \<and> off + x < int (length Y)"
  shows "\<exists>Y'. for_v Y off [u, g] [g0, g1] [0 ..< NUM_LABEL_LISTS] = Inr Y' \<and>
     length Y' = length Y \<and>
     (\<forall>k<length Y. Y' ! k = (if int k - off \<in> set g1 then g
                              else if int k - off \<in> set g0 then u else Y ! k))"
proof -
  from assms have "\<forall>x \<in> set g0. 0 \<le> off + x \<and> off + x < int (length Y)"
    by simp
  from for_label_id_ok [OF this, of u] obtain Y0
    where r0: "for_label_id Y off u g0 = Inr Y0" and l0: "length Y0 = length Y"
      and c0: "\<forall>k<length Y. Y0 ! k = (if int k - off \<in> set g0 then u else Y ! k)"
    by blast
  from assms l0 have "\<forall>x \<in> set g1. 0 \<le> off + x \<and> off + x < int (length Y0)"
    by simp
  from for_label_id_ok [OF this, of g] obtain Y1
    where r1: "for_label_id Y0 off g g1 = Inr Y1" and l1: "length Y1 = length Y0"
      and c1: "\<forall>k<length Y0. Y1 ! k = (if int k - off \<in> set g1 then g else Y0 ! k)"
    by blast
  have "for_v Y off [u, g] [g0, g1] [0 ..< NUM_LABEL_LISTS] = Inr Y1"
    by (simp add: upt_two r0 r1)
  moreover have "\<forall>k<length Y. Y1 ! k = (if int k - off \<in> set g1 then g
                              else if int k - off \<in> set g0 then u else Y ! k)"
    using c0 c1 l0 by simp
  ultimately show ?thesis using l0 l1 by simp
qed

lemma cell_index:
  assumes "0 \<le> x" and "x < L" and "j < nat L"
  shows "((int i - int item) * L + int j = x) = (i = item \<and> int j = x)"
proof (cases "i = item")
  case True
  then show ?thesis by simp
next
  case False
  have L: "0 < L" using assms by simp
  have j: "int j < L" "0 \<le> int j" using assms by simp_all
  show ?thesis
  proof (cases "i < item")
    case True
    then have "int i - int item \<le> - 1" by simp
    from mult_right_mono [OF this, of L] L have "(int i - int item) * L \<le> - L"
      by simp
    then have "(int i - int item) * L + int j < 0" using j by linarith
    with assms False show ?thesis by simp
  next
    case f: False
    with False have "1 \<le> int i - int item" by simp
    from mult_right_mono [OF this, of L] L have "L \<le> (int i - int item) * L"
      by simp
    then have "L \<le> (int i - int item) * L + int j" using j by linarith
    with assms False show ?thesis by simp
  qed
qed

lemma set_labels_ok:
  fixes s :: "('px, 'rng) layer" and b :: "'px batch"
  assumes fit: "labels_fit L (lines s ! lines_id s)"
    and L: "L = num_labels_per_line s" "1 \<le> L"
    and LV: "LABEL_VALUES s = [u, g]"
    and sh: "label_shape b ! 1 = L"
    and it: "item_id < B"
    and len: "length (label b) = B * nat L"
  shows "\<exists>Y. set_labels s b item_id = Inr Y \<and> length Y = length (label b) \<and>
     (\<forall>i<B. \<forall>j<nat L. Y ! (i * nat L + j)
        = (if i = item_id
           then label_cell [u, g] L (lines s ! lines_id s) j (label b ! (i * nat L + j))
           else label b ! (i * nat L + j)))"
proof (cases "L = 1")
  case True
  define e where "e = lines s ! lines_id s"
  from fit True have ne: "snd e \<noteq> []" "hd (snd e) \<noteq> []"
    by (auto simp: labels_fit_def e_def)
  have r: "set_labels s b item_id = Inr ((label b)[item_id := hd (hd (snd e))])"
    using ne True L it len
    by (simp add: set_labels_def Let_def e_def [symmetric] write_at_def)
  show ?thesis
    unfolding r e_def [symmetric] using True it len
    by (auto simp: label_cell_def nth_list_update)
next
  case False
  define e where "e = lines s ! lines_id s"
  from fit False obtain g0 g1 where e: "snd e = [g0, g1]"
    and rng: "\<forall>x \<in> set g0 \<union> set g1. 0 \<le> x \<and> x < L"
    by (cases "snd e"; cases "tl (snd e)") (auto simp: labels_fit_def e_def [symmetric])
  define off where "off = int item_id * L"
  have sh': "label_shape b ! Suc 0 = L"
    using sh by simp
  have off: "label_offset b item_id = off"
    by (simp add: label_offset_def sh' off_def)
  have top: "off + L \<le> int (length (label b))"
  proof -
    have "(int item_id + 1) * L \<le> int B * L"
      using it L by (intro mult_right_mono) simp_all
    moreover have "int (length (label b)) = int B * L"
      using len L by simp
    ultimately show ?thesis by (simp add: off_def algebra_simps)
  qed
  have "0 \<le> off" using L by (simp add: off_def)
  have "\<forall>x \<in> set g0 \<union> set g1. 0 \<le> off + x \<and> off + x < int (length (label b))"
  proof (intro ballI)
    fix x assume "x \<in> set g0 \<union> set g1"
    with rng have "0 \<le> x \<and> x < L" by blast
    with top \<open>0 \<le> off\<close> show "0 \<le> off + x \<and> off + x < int (length (label b))"
      by linarith
  qed
  from for_v_ok [OF this, of u g] obtain Y
    where r: "for_v (label b) off [u, g] [g0, g1] [0 ..< NUM_LABEL_LISTS] = Inr Y"
      and l: "length Y = length (label b)"
      and c: "\<forall>k<length (label b). Y ! k = (if int k - off \<in> set g1 then g
                              else if int k - off \<in> set g0 then u else label b ! k)"
    by blast
  have sl: "set_labels s b item_id = Inr Y"
    using False L LV e r by (simp add: set_labels_def Let_def e_def [symmetric] off)
  have cells: "Y ! (i * nat L + j)
        = (if i = item_id then label_cell [u, g] L e j (label b ! (i * nat L + j))
           else label b ! (i * nat L + j))"
    if i: "i < B" and j: "j < nat L" for i j
  proof -
    have k: "i * nat L + j < length (label b)"
    proof -
      have "i * nat L + j < (i + 1) * nat L" using j by simp
      also have "\<dots> \<le> B * nat L" using i by (intro mult_le_mono1) simp
      finally show ?thesis by (simp add: len)
    qed
    have d: "int (i * nat L + j) - off = (int i - int item_id) * L + int j"
      using L by (simp add: off_def algebra_simps)
    have m: "(int (i * nat L + j) - off \<in> set gs) = (i = item_id \<and> int j \<in> set gs)"
      if "\<forall>x \<in> set gs. 0 \<le> x \<and> x < L" for gs
    proof
      assume "int (i * nat L + j) - off \<in> set gs"
      then obtain x where x: "x \<in> set gs" "(int i - int item_id) * L + int j = x"
        unfolding d by simp
      with that have "0 \<le> x" "x < L" by simp_all
      from cell_index [OF this j, of i item_id] x show "i = item_id \<and> int j \<in> set gs"
        by simp
    next
      assume "i = item_id \<and> int j \<in> set gs"
      then show "int (i * nat L + j) - off \<in> set gs"
        unfolding d by simp
    qed
    have m0: "(int (i * nat L + j) - off \<in> set g0) = (i = item_id \<and> int j \<in> set g0)"
      using m [of g0] rng by simp
    have m1: "(int (i * nat L + j) - off \<in> set g1) = (i = item_id \<and> int j \<in> set g1)"
      using m [of g1] rng by simp
    from c k have "Y ! (i * nat L + j) = (if int (i * nat L + j) - off \<in> set g1 then g
         else if int (i * nat L + j) - off \<in> set g0 then u else label b ! (i * nat L + j))"
      by simp
    then show ?thesis
      unfolding m0 m1 using False e by (simp add: label_cell_def)
  qed
  show ?thesis
    using sl l cells unfolding e_def by blast
qed

subsection \<open>The cursor and the load loop without shuffling\<close>

lemma next_line_no_shuffle:
  assumes "\<not> shuffle p" and "lines_id s < n"
  shows "next_line env p n s = Inr (s\<lparr>lines_id := (lines_id s + 1) mod n\<rparr>)"
proof (cases "lines_id s + 1 = n")
  case True
  then show ?thesis using assms by (simp add: next_line_def)
next
  case False
  with assms have "lines_id s + 1 < n" by simp
  then show ?thesis using assms by (simp add: next_line_def)
qed

lemma read_image_at:
  "lines_id s < length (lines s) \<Longrightarrow>
   read_image env p s = Inr (image_at env p (lines s) (lines_id s))"
  by (simp add: read_image_def image_at_def)

lemma load_image_found:
  assumes "\<not> shuffle p" and "lines_id s < length (lines s)"
    and "\<forall>j<k. image_at env p (lines s) ((lines_id s + j) mod length (lines s)) = None"
    and "image_at env p (lines s) ((lines_id s + k) mod length (lines s)) = Some img"
  shows "load_image env p s
    = Some (Inr (img, s\<lparr>lines_id := (lines_id s + k) mod length (lines s)\<rparr>))"
  using assms
proof (induction k arbitrary: s)
  case 0
  note c = "0.prems"(2) and some = "0.prems"(4)
  from c some have "read_image env p s = Inr (Some img)"
    by (simp add: read_image_at)
  then have "load_image env p s = Some (Inr (img, s))"
    by (subst load_image.simps) simp
  moreover have "s\<lparr>lines_id := (lines_id s + 0) mod length (lines s)\<rparr> = s"
    using c by simp
  ultimately show ?case
    by (simp only:)
next
  case (Suc k)
  note ns = Suc.prems(1) and c = Suc.prems(2) and none = Suc.prems(3) and some = Suc.prems(4)
  define s1 where "s1 = s\<lparr>lines_id := (lines_id s + 1) mod length (lines s)\<rparr>"
  have l1: "lines s1 = lines s"
    and i1: "lines_id s1 = (lines_id s + 1) mod length (lines s)"
    by (simp_all add: s1_def)
  from none have "image_at env p (lines s) ((lines_id s + 0) mod length (lines s)) = None"
    by blast
  with c have r: "read_image env p s = Inr None"
    by (simp add: read_image_at)
  have nl: "next_line env p (length (lines s)) s = Inr s1"
    unfolding s1_def using c by (rule next_line_no_shuffle [OF ns])
  have st: "load_image env p s = load_image env p s1"
    by (subst load_image.simps) (simp add: r nl)
  have a: "(lines_id s1 + j) mod length (lines s) = (lines_id s + Suc j) mod length (lines s)"
    for j
    unfolding i1 by (simp add: mod_add_left_eq)
  have "load_image env p s1
    = Some (Inr (img, s1\<lparr>lines_id := (lines_id s1 + k) mod length (lines s1)\<rparr>))"
  proof (rule Suc.IH)
    show "\<not> shuffle p" by fact
    show "lines_id s1 < length (lines s1)"
    proof -
      from c have "0 < length (lines s)" by linarith
      then have "(lines_id s + 1) mod length (lines s) < length (lines s)"
        by (rule mod_less_divisor)
      then show ?thesis unfolding l1 i1 .
    qed
    show "\<forall>j<k. image_at env p (lines s1) ((lines_id s1 + j) mod length (lines s1)) = None"
    proof (intro allI impI)
      fix j assume "j < k"
      then have "Suc j < Suc k" by simp
      with none have "image_at env p (lines s) ((lines_id s + Suc j) mod length (lines s)) = None"
        by blast
      then show "image_at env p (lines s1) ((lines_id s1 + j) mod length (lines s1)) = None"
        unfolding l1 a .
    qed
    show "image_at env p (lines s1) ((lines_id s1 + k) mod length (lines s1)) = Some img"
      unfolding l1 a using some .
  qed
  then have "load_image env p s1
    = Some (Inr (img, s1\<lparr>lines_id := (lines_id s + Suc k) mod length (lines s)\<rparr>))"
    unfolding l1 a .
  then show ?case
    unfolding st by (simp add: s1_def)
qed

lemma next_loadable_exists:
  assumes "i < n" and "ok i" and "c < n"
  shows "\<exists>i'. next_loadable ok n c i'"
proof -
  define k0 where "k0 = (i + n - c) mod n"
  have "(c + k0) mod n = i"
  proof -
    have "(c + k0) mod n = (c + (i + n - c)) mod n"
      by (simp add: k0_def mod_add_right_eq)
    also have "\<dots> = (i + n) mod n" using assms by simp
    also have "\<dots> = i" using assms by simp
    finally show ?thesis .
  qed
  with assms have e: "ok ((c + k0) mod n)" by simp
  define k where "k = (LEAST k. ok ((c + k) mod n))"
  have "ok ((c + k) mod n)"
    unfolding k_def using e by (rule LeastI)
  moreover have "\<forall>j<k. \<not> ok ((c + j) mod n)"
    unfolding k_def using not_less_Least by blast
  ultimately have "next_loadable ok n c ((c + k) mod n)"
    unfolding next_loadable_def by blast
  then show ?thesis ..
qed

lemma next_loadable_less: "0 < n \<Longrightarrow> next_loadable ok n c i \<Longrightarrow> i < n \<and> ok i"
  by (auto simp: next_loadable_def)

lemma load_image_next_loadable:
  assumes "\<not> shuffle p" and "lines_id s < length (lines s)"
    and "next_loadable (\<lambda>i. image_at env p (lines s) i \<noteq> None) (length (lines s))
           (lines_id s) i"
  shows "load_image env p s
           = Some (Inr (the (image_at env p (lines s) i), s\<lparr>lines_id := i\<rparr>))"
proof -
  from assms(3) obtain k where i: "i = (lines_id s + k) mod length (lines s)"
    and ok: "image_at env p (lines s) i \<noteq> None"
    and no: "\<forall>j<k. image_at env p (lines s) ((lines_id s + j) mod length (lines s)) = None"
    unfolding next_loadable_def by auto
  from ok obtain img where img: "image_at env p (lines s) i = Some img"
    by auto
  from load_image_found [OF assms(1,2) no img [unfolded i]]
  show ?thesis unfolding i img [unfolded i] by simp
qed

subsection \<open>One batch without shuffling\<close>

lemma for_item_id_run:
  fixes s :: "('px, 'rng) layer" and b :: "'px batch"
    and env :: "('img, 'px, 'rng) collaborators"
  assumes ns: "\<not> shuffle p"
    and c: "lines_id s < length (lines s)"
    and ex: "\<exists>i<length (lines s). image_at env p (lines s) i \<noteq> None"
    and fit: "\<forall>e \<in> set (lines s). labels_fit (num_labels_per_line s) e"
    and L: "1 \<le> num_labels_per_line s"
    and LV: "LABEL_VALUES s = [u, g]"
    and sh: "label_shape b ! 1 = num_labels_per_line s"
    and dl: "m + r \<le> length (data b)"
    and ll: "length (label b) = length (data b) * nat (num_labels_per_line s)"
  shows "\<exists>ids s' b'.
      for_item_id env p (length (lines s)) [m ..< m + r] s b = Some (Inr (s', b')) \<and>
      length ids = r \<and>
      visits (\<lambda>i. image_at env p (lines s) i \<noteq> None) (length (lines s)) (lines_id s) ids \<and>
      s' = s\<lparr>lines_id := (if r = 0 then lines_id s else (last ids + 1) mod length (lines s))\<rparr> \<and>
      data_shape b' = data_shape b \<and> label_shape b' = label_shape b \<and>
      length (data b') = length (data b) \<and> length (label b') = length (label b) \<and>
      (\<forall>i<length (data b). data b' ! i =
         (if m \<le> i \<and> i < m + r
          then Some (Transform env (the (image_at env p (lines s) (ids ! (i - m)))))
          else data b ! i)) \<and>
      (\<forall>i<length (data b). \<forall>j<nat (num_labels_per_line s).
         label b' ! (i * nat (num_labels_per_line s) + j) =
         (if m \<le> i \<and> i < m + r
          then label_cell [u, g] (num_labels_per_line s) (lines s ! (ids ! (i - m))) j
                 (label b ! (i * nat (num_labels_per_line s) + j))
          else label b ! (i * nat (num_labels_per_line s) + j)))"
  using c ex fit L LV sh dl ll
proof (induction r arbitrary: m s b rule: nat.induct)
  case zero
  show ?case
    by (rule exI [of _ "[]"]) auto
next
  case (Suc r)
  note c = Suc.prems(1) and ex = Suc.prems(2) and fit = Suc.prems(3) and L = Suc.prems(4)
    and LV = Suc.prems(5) and sh = Suc.prems(6) and dl = Suc.prems(7) and ll = Suc.prems(8)
  define n where "n = length (lines s)"
  define W where "W = nat (num_labels_per_line s)"
  define ok where "ok = (\<lambda>i. image_at env p (lines s) i \<noteq> None)"
  have n0: "0 < n" using c unfolding n_def by linarith
  from ex obtain i where i: "i < n" "ok i"
    unfolding n_def ok_def by blast
  from next_loadable_exists [of i n ok "lines_id s", OF i c [folded n_def]]
  obtain i0 where nl0: "next_loadable ok n (lines_id s) i0"
    by blast
  from next_loadable_less [OF n0 nl0] have i0: "i0 < n" "ok i0"
    by simp_all
  define img0 where "img0 = the (image_at env p (lines s) i0)"
  define s1 where "s1 = s\<lparr>lines_id := i0\<rparr>"
  define s2 where "s2 = s\<lparr>lines_id := (i0 + 1) mod n\<rparr>"
  define b1 where "b1 = b\<lparr>data := (data b)[m := Some (Transform env img0)]\<rparr>"
  have li: "load_image env p s = Some (Inr (img0, s1))"
    unfolding img0_def s1_def
    using load_image_next_loadable [OF ns c nl0 [unfolded ok_def n_def]] .
  have m: "m < length (data b)" using dl by simp
  have e1: "lines s1 ! lines_id s1 = lines s ! i0"
    by (simp add: s1_def)
  have "lines s ! i0 \<in> set (lines s)"
    using i0 unfolding n_def by simp
  with fit have f1: "labels_fit (num_labels_per_line s1) (lines s1 ! lines_id s1)"
    by (simp add: s1_def)
  have "\<exists>Y. set_labels s1 b1 m = Inr Y \<and> length Y = length (label b1) \<and>
     (\<forall>i<length (data b). \<forall>j<nat (num_labels_per_line s1). Y ! (i * nat (num_labels_per_line s1) + j)
        = (if i = m
           then label_cell [u, g] (num_labels_per_line s1) (lines s1 ! lines_id s1) j
                  (label b1 ! (i * nat (num_labels_per_line s1) + j))
           else label b1 ! (i * nat (num_labels_per_line s1) + j)))"
  proof (rule set_labels_ok [OF f1])
    show "num_labels_per_line s1 = num_labels_per_line s1" ..
    show "1 \<le> num_labels_per_line s1" using L by (simp add: s1_def)
    show "LABEL_VALUES s1 = [u, g]" using LV by (simp add: s1_def)
    show "label_shape b1 ! 1 = num_labels_per_line s1" using sh by (simp add: s1_def b1_def)
    show "m < length (data b)" by fact
    show "length (label b1) = length (data b) * nat (num_labels_per_line s1)"
      using ll by (simp add: s1_def b1_def)
  qed
  then obtain Y where sl: "set_labels s1 b1 m = Inr Y"
    and lY: "length Y = length (label b)"
    and cY: "\<forall>i<length (data b). \<forall>j<W. Y ! (i * W + j)
        = (if i = m then label_cell [u, g] (num_labels_per_line s) (lines s ! i0) j
                  (label b ! (i * W + j))
           else label b ! (i * W + j))"
    unfolding W_def by (auto simp: s1_def b1_def)
  define b2 where "b2 = b1\<lparr>label := Y\<rparr>"
  have nx: "next_line env p n s1 = Inr s2"
    using next_line_no_shuffle [OF ns, of s1 n env] i0 by (simp add: s1_def s2_def)
  have step: "for_item_id env p n [m ..< m + Suc r] s b
      = for_item_id env p n [Suc m ..< Suc m + r] s2 b2"
  proof -
    have "[m ..< m + Suc r] = m # [Suc m ..< Suc m + r]"
      by (simp add: upt_conv_Cons)
    then show ?thesis
      using c m by (simp add: n_def [symmetric] li sl nx b1_def [symmetric] b2_def [symmetric] Let_def)
  qed
  have s2f: "lines s2 = lines s" "num_labels_per_line s2 = num_labels_per_line s"
    "lines_id s2 = (i0 + 1) mod length (lines s)" "LABEL_VALUES s2 = LABEL_VALUES s"
    by (simp_all add: s2_def n_def)
  have b2f: "data_shape b2 = data_shape b" "label_shape b2 = label_shape b"
    "length (data b2) = length (data b)" "length (label b2) = length (label b)"
    by (simp_all add: b2_def b1_def lY)
  have p1: "lines_id s2 < length (lines s2)"
    using n0 by (simp add: s2_def n_def)
  have p2: "\<exists>i<length (lines s2). image_at env p (lines s2) i \<noteq> None"
    using ex by (simp add: s2_def)
  have p3: "\<forall>e \<in> set (lines s2). labels_fit (num_labels_per_line s2) e"
    using fit by (simp add: s2_def)
  have p4: "1 \<le> num_labels_per_line s2" using L by (simp add: s2_def)
  have p5: "LABEL_VALUES s2 = [u, g]" using LV by (simp add: s2_def)
  have p6: "label_shape b2 ! 1 = num_labels_per_line s2"
    using sh by (simp add: s2_def b2_def b1_def)
  have p7: "Suc m + r \<le> length (data b2)" using dl by (simp add: b2_def b1_def)
  have p8: "length (label b2) = length (data b2) * nat (num_labels_per_line s2)"
    using ll lY by (simp add: s2_def b2_def b1_def)
  note ih = Suc.IH [OF p1 p2 p3 p4 p5 p6 p7 p8, unfolded s2f b2f]
  from ih obtain ids s' b' where
    run: "for_item_id env p (length (lines s)) [Suc m ..< Suc m + r] s2 b2 = Some (Inr (s', b'))"
    and len: "length ids = r"
    and vis: "visits (\<lambda>i. image_at env p (lines s) i \<noteq> None) (length (lines s))
        ((i0 + 1) mod length (lines s)) ids"
    and s': "s' = s2\<lparr>lines_id := (if r = 0 then (i0 + 1) mod length (lines s)
                               else (last ids + 1) mod length (lines s))\<rparr>"
    and shp: "data_shape b' = data_shape b" "label_shape b' = label_shape b"
      "length (data b') = length (data b)" "length (label b') = length (label b)"
    and dat: "\<forall>i<length (data b). data b' ! i =
         (if Suc m \<le> i \<and> i < Suc m + r
          then Some (Transform env (the (image_at env p (lines s) (ids ! (i - Suc m)))))
          else data b2 ! i)"
    and lab0: "\<forall>i<length (data b). \<forall>j<nat (num_labels_per_line s).
         label b' ! (i * nat (num_labels_per_line s) + j) =
         (if Suc m \<le> i \<and> i < Suc m + r
          then label_cell [u, g] (num_labels_per_line s) (lines s ! (ids ! (i - Suc m))) j
                 (label b2 ! (i * nat (num_labels_per_line s) + j))
          else label b2 ! (i * nat (num_labels_per_line s) + j))"
    by blast
  note lab = lab0 [folded W_def]
  have A: "for_item_id env p (length (lines s)) [m ..< m + Suc r] s b = Some (Inr (s', b'))"
    using step run unfolding n_def by (simp only:)
  have B: "length (i0 # ids) = Suc r" using len by simp
  have C: "visits (\<lambda>i. image_at env p (lines s) i \<noteq> None) (length (lines s)) (lines_id s) (i0 # ids)"
    using nl0 vis unfolding ok_def n_def by simp
  have D: "s' = s\<lparr>lines_id := (if Suc r = 0 then lines_id s
               else (last (i0 # ids) + 1) mod length (lines s))\<rparr>"
  proof (cases "r = 0")
    case True
    with len s' show ?thesis by (simp add: s2_def n_def)
  next
    case False
    with len have "ids \<noteq> []" by auto
    with s' False show ?thesis by (simp add: s2_def n_def)
  qed
  have E: "\<forall>i<length (data b). data b' ! i =
         (if m \<le> i \<and> i < m + Suc r
          then Some (Transform env (the (image_at env p (lines s) ((i0 # ids) ! (i - m)))))
          else data b ! i)"
  proof (intro allI impI)
    fix i assume i: "i < length (data b)"
    have d2: "data b2 ! i = (if i = m then Some (Transform env img0) else data b ! i)"
      using i by (simp add: b2_def b1_def nth_list_update)
    from dat i have di: "data b' ! i =
         (if Suc m \<le> i \<and> i < Suc m + r
          then Some (Transform env (the (image_at env p (lines s) (ids ! (i - Suc m)))))
          else data b2 ! i)"
      by blast
    show "data b' ! i =
         (if m \<le> i \<and> i < m + Suc r
          then Some (Transform env (the (image_at env p (lines s) ((i0 # ids) ! (i - m)))))
          else data b ! i)"
    proof (cases "Suc m \<le> i \<and> i < Suc m + r")
      case True
      then have "(i0 # ids) ! (i - m) = ids ! (i - Suc m)"
        by (simp add: nth_Cons')
      moreover from True have "m \<le> i \<and> i < m + Suc r" by simp
      ultimately show ?thesis using di True by simp
    next
      case False
      then have "(Suc m \<le> i \<and> i < Suc m + r) = False" by simp
      with di have e: "data b' ! i = data b2 ! i" by (simp only: if_False simp_thms)
      show ?thesis
      proof (cases "i = m")
        case True
        then show ?thesis unfolding e d2 by (simp add: img0_def)
      next
        case ne: False
        with False have "\<not> (m \<le> i \<and> i < m + Suc r)" by auto
        with ne show ?thesis unfolding e d2 by (simp only: if_False simp_thms)
      qed
    qed
  qed
  have F: "\<forall>i<length (data b). \<forall>j<nat (num_labels_per_line s).
         label b' ! (i * nat (num_labels_per_line s) + j) =
         (if m \<le> i \<and> i < m + Suc r
          then label_cell [u, g] (num_labels_per_line s) (lines s ! ((i0 # ids) ! (i - m))) j
                 (label b ! (i * nat (num_labels_per_line s) + j))
          else label b ! (i * nat (num_labels_per_line s) + j))"
    unfolding W_def [symmetric]
  proof (intro allI impI)
    fix i j assume i: "i < length (data b)" and j: "j < W"
    have l2: "label b2 ! (i * W + j)
        = (if i = m then label_cell [u, g] (num_labels_per_line s) (lines s ! i0) j
                  (label b ! (i * W + j))
           else label b ! (i * W + j))"
      using cY i j by (simp add: b2_def)
    from lab i j have lj: "label b' ! (i * W + j) =
         (if Suc m \<le> i \<and> i < Suc m + r
          then label_cell [u, g] (num_labels_per_line s) (lines s ! (ids ! (i - Suc m))) j
                 (label b2 ! (i * W + j))
          else label b2 ! (i * W + j))"
      by blast
    show "label b' ! (i * W + j) =
         (if m \<le> i \<and> i < m + Suc r
          then label_cell [u, g] (num_labels_per_line s) (lines s ! ((i0 # ids) ! (i - m))) j
                 (label b ! (i * W + j))
          else label b ! (i * W + j))"
    proof (cases "Suc m \<le> i \<and> i < Suc m + r")
      case True
      then have "(i0 # ids) ! (i - m) = ids ! (i - Suc m)"
        by (simp add: nth_Cons')
      moreover from True have ne: "i \<noteq> m" by simp
      moreover from True have "m \<le> i \<and> i < m + Suc r" by simp
      ultimately show ?thesis
        using True lj l2 by simp
    next
      case False
      then have "(Suc m \<le> i \<and> i < Suc m + r) = False" by simp
      with lj have e: "label b' ! (i * W + j) = label b2 ! (i * W + j)" by (simp only: if_False simp_thms)
      show ?thesis
      proof (cases "i = m")
        case True
        then show ?thesis unfolding e l2 by simp
      next
        case ne: False
        with False have "\<not> (m \<le> i \<and> i < m + Suc r)" by auto
        with ne show ?thesis unfolding e l2 by (simp only: if_False simp_thms)
      qed
    qed
  qed
  show ?case
    apply (rule exI [of _ "i0 # ids"])
    apply (rule exI [of _ s'])
    apply (rule exI [of _ b'])
    apply (intro conjI A B C D shp E F)
    done
qed

lemma next_loadable_self:
  assumes "ok c" and "c < n" and "next_loadable ok n c i"
  shows "i = c"
proof -
  from assms(3) obtain k where i: "i = (c + k) mod n" and no: "\<forall>j<k. \<not> ok ((c + j) mod n)"
    unfolding next_loadable_def by blast
  have "k = 0"
  proof (rule ccontr)
    assume "k \<noteq> 0"
    then have "0 < k" by simp
    with no have "\<not> ok ((c + 0) mod n)" by blast
    with assms(1,2) show False by simp
  qed
  with i assms(2) show ?thesis by simp
qed

lemma load_batch_run:
  fixes s :: "('px, 'rng) layer" and b :: "'px batch"
    and env :: "('img, 'px, 'rng) collaborators"
  assumes ns: "\<not> shuffle p"
    and c: "lines_id s < length (lines s)"
    and ex: "\<exists>i<length (lines s). image_at env p (lines s) i \<noteq> None"
    and fit: "\<forall>e \<in> set (lines s). labels_fit (num_labels_per_line s) e"
    and L: "1 \<le> num_labels_per_line s"
    and LV: "LABEL_VALUES s = [u, g]"
    and dc: "count (data_shape b) \<noteq> 0"
    and tc: "count (transformed_data s) \<noteq> 0"
    and inf: "\<forall>img. InferBlobShape env img \<noteq> []"
    and B: "0 < batch_size p"
    and sh: "label_shape b ! 1 = num_labels_per_line s"
    and ll: "length (label b) = nat (batch_size p) * nat (num_labels_per_line s)"
  shows "\<exists>ids s' b'.
      load_batch env p s b = Some (Inr (s', b')) \<and>
      length ids = nat (batch_size p) \<and>
      visits (\<lambda>i. image_at env p (lines s) i \<noteq> None) (length (lines s)) (lines_id s) ids \<and>
      s' = s\<lparr>lines_id := (last ids + 1) mod length (lines s),
             transformed_data := InferBlobShape env (the (image_at env p (lines s) (hd ids)))\<rparr> \<and>
      data_shape b'
        = (InferBlobShape env (the (image_at env p (lines s) (hd ids))))[0 := batch_size p] \<and>
      label_shape b' = label_shape b \<and>
      data b' = map (\<lambda>i. Some (Transform env (the (image_at env p (lines s) i)))) ids \<and>
      length (label b') = length (label b) \<and>
      (\<forall>i<nat (batch_size p). \<forall>j<nat (num_labels_per_line s).
         label b' ! (i * nat (num_labels_per_line s) + j)
           = label_cell [u, g] (num_labels_per_line s) (lines s ! (ids ! i)) j 0)"
proof -
  define n where "n = length (lines s)"
  define W where "W = nat (num_labels_per_line s)"
  define N where "N = nat (batch_size p)"
  define ok where "ok = (\<lambda>i. image_at env p (lines s) i \<noteq> None)"
  have n0: "0 < n" using c unfolding n_def by linarith
  have N0: "0 < N" using B by (simp add: N_def)
  from ex obtain i where i: "i < n" "ok i"
    unfolding n_def ok_def by blast
  from next_loadable_exists [of i n ok "lines_id s", OF i c [folded n_def]]
  obtain i0 where nl0: "next_loadable ok n (lines_id s) i0"
    by blast
  from next_loadable_less [OF n0 nl0] have i0: "i0 < n" "ok i0"
    by simp_all
  define img0 where "img0 = the (image_at env p (lines s) i0)"
  define s1 where "s1 = s\<lparr>lines_id := i0\<rparr>"
  define top_shape where "top_shape = InferBlobShape env img0"
  define s2 where "s2 = s1\<lparr>transformed_data := top_shape\<rparr>"
  define b1 where "b1 = Reshape_data (top_shape[0 := batch_size p]) b"
  define Y where "Y = replicate (N * W) (0::int)"
  define b2 where "b2 = b1\<lparr>label := Y\<rparr>"
  have li: "load_image env p s = Some (Inr (img0, s1))"
    unfolding img0_def s1_def
    using load_image_next_loadable [OF ns c nl0 [unfolded ok_def n_def]] .
  have ts: "top_shape \<noteq> []" using inf by (simp add: top_shape_def)
  then have hd: "hd (top_shape[0 := batch_size p]) = batch_size p"
    by (cases top_shape) simp_all
  have b1f: "data_shape b1 = top_shape[0 := batch_size p]" "data b1 = replicate N None"
    "label_shape b1 = label_shape b" "label b1 = label b"
    by (simp_all add: b1_def Reshape_data_def hd N_def)
  have nm: "nat (batch_size p * num_labels_per_line s) = N * W"
    using B L by (simp add: N_def W_def nat_mult_distrib)
  have cs: "caffe_set (batch_size p * num_labels_per_line s1) 0 (label b1) = Inr Y"
  proof -
    have "0 \<le> batch_size p * num_labels_per_line s" using B L by simp
    moreover have "batch_size p * num_labels_per_line s \<le> int (length (label b))"
      using ll nm by (metis N_def W_def nat_le_iff order_refl)
    ultimately show ?thesis
      using ll by (simp add: caffe_set_def s2_def s1_def b1f nm Y_def N_def W_def)
  qed
  have f1: "Reshape_data ((InferBlobShape env img0)[0 := batch_size p]) b = b1"
    by (simp add: b1_def top_shape_def)
  have f2: "s1\<lparr>transformed_data := InferBlobShape env img0\<rparr> = s2"
    by (simp add: s2_def top_shape_def)
  have f3: "b1\<lparr>label := Y\<rparr> = b2"
    by (simp add: b2_def)
  have f4: "InferBlobShape env img0 \<noteq> []"
    using ts by (simp add: top_shape_def)
  have lb: "load_batch env p s b
      = for_item_id env p (length (lines s2)) [0 ..< 0 + N] s2 b2"
    using dc tc
    by (simp add: load_batch_def li Let_def f1 f2 f3 f4 cs N_def)
  have s2f: "lines s2 = lines s" "num_labels_per_line s2 = num_labels_per_line s"
    "lines_id s2 = i0" "LABEL_VALUES s2 = LABEL_VALUES s"
    by (simp_all add: s2_def s1_def)
  have b2f: "data_shape b2 = top_shape[0 := batch_size p]" "label_shape b2 = label_shape b"
    "length (data b2) = N" "length (label b2) = length (label b)"
    "data b2 = replicate N None" "label b2 = Y"
    using ll by (simp_all add: b2_def b1f Y_def N_def W_def)
  have p1: "lines_id s2 < length (lines s2)"
    using i0 by (simp add: s2f n_def)
  have p2: "\<exists>i<length (lines s2). image_at env p (lines s2) i \<noteq> None"
    using ex by (simp add: s2f)
  have p3: "\<forall>e \<in> set (lines s2). labels_fit (num_labels_per_line s2) e"
    using fit by (simp add: s2f)
  have p4: "1 \<le> num_labels_per_line s2" using L by (simp add: s2f)
  have p5: "LABEL_VALUES s2 = [u, g]" using LV by (simp add: s2f)
  have p6: "label_shape b2 ! 1 = num_labels_per_line s2"
    using sh by (simp add: s2f b2f(2))
  have p7: "0 + N \<le> length (data b2)" by (simp add: b2f(3))
  have p8: "length (label b2) = length (data b2) * nat (num_labels_per_line s2)"
    using ll by (simp add: s2f b2f(3,4) N_def)
  note run = for_item_id_run [OF ns p1 p2 p3 p4 p5 p6 p7 p8, unfolded s2f(1,2,3) b2f(1,2,3,4)]
  from run obtain ids s' b' where
    r: "for_item_id env p (length (lines s)) [0 ..< 0 + N] s2 b2 = Some (Inr (s', b'))"
    and len: "length ids = N"
    and vis: "visits (\<lambda>i. image_at env p (lines s) i \<noteq> None) (length (lines s)) i0 ids"
    and s': "s' = s2\<lparr>lines_id := (if N = 0 then i0 else (last ids + 1) mod length (lines s))\<rparr>"
    and shp: "data_shape b' = top_shape[0 := batch_size p]" "label_shape b' = label_shape b"
      "length (data b') = N" "length (label b') = length (label b)"
    and dat: "\<forall>i<N. data b' ! i =
         (if 0 \<le> i \<and> i < 0 + N
          then Some (Transform env (the (image_at env p (lines s) (ids ! (i - 0)))))
          else data b2 ! i)"
    and lab: "\<forall>i<N. \<forall>j<nat (num_labels_per_line s).
         label b' ! (i * nat (num_labels_per_line s) + j) =
         (if 0 \<le> i \<and> i < 0 + N
          then label_cell [u, g] (num_labels_per_line s) (lines s ! (ids ! (i - 0))) j
                 (label b2 ! (i * nat (num_labels_per_line s) + j))
          else label b2 ! (i * nat (num_labels_per_line s) + j))"
    by blast
  from len N0 obtain i1 rest where ids: "ids = i1 # rest"
    by (cases ids) auto
  from vis have v1: "next_loadable ok n i0 i1" and v2: "visits ok n ((i1 + 1) mod n) rest"
    unfolding ids ok_def n_def by simp_all
  from next_loadable_self [OF i0(2,1) v1] have i1: "i1 = i0" .
  have hdi: "hd ids = i0" by (simp add: ids i1)
  have A: "load_batch env p s b = Some (Inr (s', b'))"
    using lb r by (simp add: s2f)
  have C: "visits (\<lambda>i. image_at env p (lines s) i \<noteq> None) (length (lines s)) (lines_id s) ids"
    using nl0 v2 unfolding ids i1 ok_def n_def by simp
  have D: "s' = s\<lparr>lines_id := (last ids + 1) mod length (lines s),
             transformed_data := InferBlobShape env (the (image_at env p (lines s) (hd ids)))\<rparr>"
    using s' N0 by (simp add: hdi s2_def s1_def top_shape_def img0_def)
  have E: "data_shape b'
        = (InferBlobShape env (the (image_at env p (lines s) (hd ids))))[0 := batch_size p]"
    using shp(1) by (simp add: hdi top_shape_def img0_def)
  have F: "data b' = map (\<lambda>i. Some (Transform env (the (image_at env p (lines s) i)))) ids"
  proof (rule nth_equalityI)
    show "length (data b') = length (map (\<lambda>i. Some (Transform env (the (image_at env p (lines s) i)))) ids)"
      using shp(3) len by simp
    fix i assume "i < length (data b')"
    then have i: "i < N" using shp(3) by simp
    with dat have "data b' ! i = Some (Transform env (the (image_at env p (lines s) (ids ! i))))"
      by simp
    then show "data b' ! i = map (\<lambda>i. Some (Transform env (the (image_at env p (lines s) i)))) ids ! i"
      using i len by simp
  qed
  have G: "\<forall>i<nat (batch_size p). \<forall>j<nat (num_labels_per_line s).
         label b' ! (i * nat (num_labels_per_line s) + j)
           = label_cell [u, g] (num_labels_per_line s) (lines s ! (ids ! i)) j 0"
    unfolding N_def [symmetric] W_def [symmetric]
  proof (intro allI impI)
    fix i j assume i: "i < N" and j: "j < W"
    have "i * W + j < (i + 1) * W" using j by simp
    also have "\<dots> \<le> N * W" using i by (intro mult_le_mono1) simp
    finally have "label b2 ! (i * W + j) = 0"
      by (simp add: b2f Y_def)
    moreover from lab i j have "label b' ! (i * W + j) =
         (if 0 \<le> i \<and> i < 0 + N
          then label_cell [u, g] (num_labels_per_line s) (lines s ! (ids ! (i - 0))) j
                 (label b2 ! (i * W + j))
          else label b2 ! (i * W + j))"
      unfolding W_def by blast
    ultimately show "label b' ! (i * W + j)
           = label_cell [u, g] (num_labels_per_line s) (lines s ! (ids ! i)) j 0"
      using i by simp
  qed
  show ?thesis
    apply (rule exI [of _ ids])
    apply (rule exI [of _ s'])
    apply (rule exI [of _ b'])
    apply (intro conjI A len [unfolded N_def] C D E shp(2) F shp(4) G)
    done
qed

subsection \<open>What holds with and without shuffling\<close>

lemma next_line_result:
  "next_line env p n s = Inl e \<Longrightarrow> e = Undefined"
  "next_line env p n s = Inr s' \<Longrightarrow>
     transformed_data s' = transformed_data s \<and> num_labels_per_line s' = num_labels_per_line s \<and>
     LABEL_VALUES s' = LABEL_VALUES s"
  by (auto simp: next_line_def Let_def ShuffleImages_def split: if_splits option.splits)

lemma read_image_error: "read_image env p s = Inl e \<Longrightarrow> e = Undefined"
  by (auto simp: read_image_def split: if_splits)

lemma load_image_result:
  assumes "load_image env p s = Some y"
  shows "(\<forall>ch. y \<noteq> Inl (CHECK_failed ch)) \<and>
     (\<forall>img s1. y = Inr (img, s1) \<longrightarrow>
        read_image env p s1 = Inr (Some img) \<and> transformed_data s1 = transformed_data s \<and>
        num_labels_per_line s1 = num_labels_per_line s \<and> LABEL_VALUES s1 = LABEL_VALUES s)"
proof (rule load_image.raw_induct [where P = "\<lambda>env p s y. (\<forall>ch. y \<noteq> Inl (CHECK_failed ch)) \<and>
     (\<forall>img s1. y = Inr (img, s1) \<longrightarrow>
        read_image env p s1 = Inr (Some img) \<and> transformed_data s1 = transformed_data s \<and>
        num_labels_per_line s1 = num_labels_per_line s \<and> LABEL_VALUES s1 = LABEL_VALUES s)",
      OF _ assms], goal_cases)
  case (1 f env p s y)
  note ih = 1(1) and eq = 1(2)
  show ?case
  proof (cases "read_image env p s")
    case (Inl e)
    from eq have "y = Inl e" by (simp add: Inl)
    with read_image_error [OF Inl] show ?thesis by simp
  next
    case (Inr r)
    show ?thesis
    proof (cases r)
      case (Some img)
      from eq have "y = Inr (img, s)" by (simp add: Inr Some)
      with Inr Some show ?thesis by simp
    next
      case None
      show ?thesis
      proof (cases "next_line env p (length (lines s)) s")
        case (Inl e)
        from eq have "y = Inl e" by (simp add: Inr None Inl)
        with next_line_result(1) [OF Inl] show ?thesis by simp
      next
        case nx: (Inr s')
        from eq have "f env p s' = Some y" by (simp add: Inr None nx)
        note h = ih [OF this]
        note t = next_line_result(2) [OF nx]
        show ?thesis
        proof (rule conjI)
          show "\<forall>ch. y \<noteq> Inl (CHECK_failed ch)"
            by (rule h [THEN conjunct1])
          show "\<forall>img s1. y = Inr (img, s1) \<longrightarrow>
            read_image env p s1 = Inr (Some img) \<and> transformed_data s1 = transformed_data s \<and>
            num_labels_per_line s1 = num_labels_per_line s \<and> LABEL_VALUES s1 = LABEL_VALUES s"
          proof (intro allI impI)
            fix img s1 assume "y = Inr (img, s1)"
            with h have "read_image env p s1 = Inr (Some img) \<and>
              transformed_data s1 = transformed_data s' \<and>
              num_labels_per_line s1 = num_labels_per_line s' \<and>
              LABEL_VALUES s1 = LABEL_VALUES s'"
              by blast
            with t show "read_image env p s1 = Inr (Some img) \<and>
              transformed_data s1 = transformed_data s \<and>
              num_labels_per_line s1 = num_labels_per_line s \<and> LABEL_VALUES s1 = LABEL_VALUES s"
              by simp
          qed
        qed
      qed
    qed
  qed
qed






lemma for_item_id_frame:
  assumes "for_item_id env p n ids s b = Some (Inr (s', b'))"
  shows "data_shape b' = data_shape b \<and> length (data b') = length (data b) \<and>
     transformed_data s' = transformed_data s \<and> label_shape b' = label_shape b \<and>
     (\<forall>i<length (data b). (i \<notin> set ids \<longrightarrow> data b' ! i = data b ! i) \<and>
                           (i \<in> set ids \<longrightarrow> data b' ! i \<noteq> None))"
  using assms
proof (induction ids arbitrary: s b)
  case Nil
  then show ?case by simp
next
  case (Cons item_id ids)
  from Cons.prems have c: "lines_id s < n"
    by (auto split: if_splits)
  from Cons.prems c obtain cv_img s1 where li: "load_image env p s = Some (Inr (cv_img, s1))"
    by (auto split: option.splits sum.splits)
  from Cons.prems c li have m: "item_id < length (data b)"
    by (auto split: if_splits)
  define b1 where "b1 = b\<lparr>data := (data b)[item_id := Some (Transform env cv_img)]\<rparr>"
  from Cons.prems c li m obtain Y where sl: "set_labels s1 b1 item_id = Inr Y"
    by (auto simp: Let_def b1_def split: sum.splits)
  from Cons.prems c li m sl obtain s2 where nx: "next_line env p n s1 = Inr s2"
    by (auto simp: Let_def b1_def [symmetric] split: sum.splits)
  define b2 where "b2 = b1\<lparr>label := Y\<rparr>"
  from Cons.prems c li m sl nx have r: "for_item_id env p n ids s2 b2 = Some (Inr (s', b'))"
    by (simp add: Let_def b1_def [symmetric] b2_def)
  note ih = Cons.IH [OF r]
  have t: "transformed_data s2 = transformed_data s"
    using load_image_result [OF li] next_line_result(2) [OF nx] by simp
  have b2f: "data_shape b2 = data_shape b" "length (data b2) = length (data b)"
    "label_shape b2 = label_shape b"
    by (simp_all add: b2_def b1_def)
  have d2: "data b2 ! i = (if i = item_id then Some (Transform env cv_img) else data b ! i)"
    if "i < length (data b)" for i
    using that by (simp add: b2_def b1_def nth_list_update)
  have "(i \<notin> set (item_id # ids) \<longrightarrow> data b' ! i = data b ! i) \<and>
        (i \<in> set (item_id # ids) \<longrightarrow> data b' ! i \<noteq> None)"
    if i: "i < length (data b)" for i
  proof (cases "i \<in> set ids")
    case True
    with ih i b2f show ?thesis by simp
  next
    case False
    with ih i b2f have "data b' ! i = data b2 ! i" by simp
    with d2 [OF i] False show ?thesis by auto
  qed
  with ih t b2f show ?case by simp
qed

subsection \<open>Traversals of the dataset\<close>

lemma consume_run:
  fixes s :: "('px, 'rng) layer"
  assumes "\<not> shuffle p" and "lines_id s < length (lines s)"
  shows "consume env p k s
    = Inr (map (\<lambda>i. lines s ! ((lines_id s + i) mod length (lines s))) [0 ..< k],
           s\<lparr>lines_id := (lines_id s + k) mod length (lines s)\<rparr>)"
  using assms(2)
proof (induction k arbitrary: s)
  case 0
  then show ?case by simp
next
  case (Suc k)
  define s1 where "s1 = s\<lparr>lines_id := (lines_id s + 1) mod length (lines s)\<rparr>"
  have nl: "next_line env p (length (lines s)) s = Inr s1"
    unfolding s1_def using Suc.prems by (rule next_line_no_shuffle [OF assms(1)])
  have l1: "lines s1 = lines s"
    and i1: "lines_id s1 = (lines_id s + 1) mod length (lines s)"
    by (simp_all add: s1_def)
  have c1: "lines_id s1 < length (lines s1)"
  proof -
    from Suc.prems have "0 < length (lines s)" by linarith
    then have "(lines_id s + 1) mod length (lines s) < length (lines s)"
      by (rule mod_less_divisor)
    then show ?thesis unfolding l1 i1 .
  qed
  have a: "(lines_id s1 + j) mod length (lines s) = (lines_id s + Suc j) mod length (lines s)"
    for j
    unfolding i1 by (simp add: mod_add_left_eq)
  have ih: "consume env p k s1
    = Inr (map (\<lambda>i. lines s ! ((lines_id s + Suc i) mod length (lines s))) [0 ..< k],
           s1\<lparr>lines_id := (lines_id s + Suc k) mod length (lines s)\<rparr>)"
    using Suc.IH [OF c1] unfolding l1 a .
  have m: "map (\<lambda>i. lines s ! ((lines_id s + i) mod length (lines s))) [0 ..< Suc k]
      = lines s ! lines_id s
        # map (\<lambda>i. lines s ! ((lines_id s + Suc i) mod length (lines s))) [0 ..< k]"
  proof -
    have "[0 ..< Suc k] = 0 # map Suc [0 ..< k]"
      by (simp add: upt_conv_Cons map_Suc_upt del: upt_Suc)
    then show ?thesis
      using Suc.prems by (simp add: o_def del: upt_Suc)
  qed
  have step: "consume env p (Suc k) s
      = (case consume env p k s1 of Inl e \<Rightarrow> Inl e
         | Inr r \<Rightarrow> Inr (lines s ! lines_id s # fst r, snd r))"
    using Suc.prems by (simp add: nl)
  show ?case
    unfolding m step ih by (simp add: s1_def)
qed

lemma visits_all_loadable:
  assumes "\<forall>i<n. ok i" and "c < n" and "visits ok n c ids"
  shows "ids = map (\<lambda>i. (c + i) mod n) [0 ..< length ids]"
  using assms(2,3)
proof (induction ids arbitrary: c)
  case Nil
  then show ?case by simp
next
  case (Cons i ids)
  from Cons.prems have nl: "next_loadable ok n c i" and v: "visits ok n ((i + 1) mod n) ids"
    by simp_all
  from assms(1) Cons.prems(1) have "ok c" by simp
  from next_loadable_self [OF this Cons.prems(1) nl] have i: "i = c" .
  have "0 < n" using Cons.prems(1) by simp
  then have c1: "(c + 1) mod n < n" by (rule mod_less_divisor)
  from Cons.IH [OF c1 v [unfolded i]]
  have ids: "ids = map (\<lambda>j. ((c + 1) mod n + j) mod n) [0 ..< length ids]" .
  have "map (\<lambda>j. (c + j) mod n) [0 ..< length (i # ids)]
      = c # map (\<lambda>j. (c + Suc j) mod n) [0 ..< length ids]"
  proof -
    have "[0 ..< Suc (length ids)] = 0 # map Suc [0 ..< length ids]"
      by (simp add: upt_conv_Cons map_Suc_upt del: upt_Suc)
    then show ?thesis
      using Cons.prems(1) by (simp add: o_def del: upt_Suc)
  qed
  also have "map (\<lambda>j. (c + Suc j) mod n) [0 ..< length ids]
      = map (\<lambda>j. ((c + 1) mod n + j) mod n) [0 ..< length ids]"
    by (simp add: mod_add_left_eq)
  finally show ?case
    using ids i by simp
qed

lemma mod_shift_inj:
  fixes c n i j :: nat
  assumes "i < n" and "j < n" and "(c + i) mod n = (c + j) mod n"
  shows "i = j"
proof -
  have "int ((c + i) mod n) = int ((c + j) mod n)" using assms(3) by simp
  then have "(int c + int i) mod int n = (int c + int j) mod int n"
    by (simp add: zmod_int)
  then have "int i mod int n = int j mod int n"
    by (metis mod_add_cong mod_add_left_eq add_diff_cancel_left' mod_diff_cong)
  with assms(1,2) show ?thesis by simp
qed

lemma distinct_mod_shift:
  fixes c n k :: nat
  assumes "k \<le> n"
  shows "distinct (map (\<lambda>i. (c + i) mod n) [0 ..< k])"
proof -
  have "inj_on (\<lambda>i. (c + i) mod n) (set [0 ..< k])"
  proof (rule inj_onI)
    fix x y assume "x \<in> set [0 ..< k]" "y \<in> set [0 ..< k]" "(c + x) mod n = (c + y) mod n"
    with assms show "x = y" by (intro mod_shift_inj [of x n y c]) auto
  qed
  then show ?thesis by (simp add: distinct_map)
qed

lemma ready_run:
  fixes s :: "('px, 'rng) layer" and b :: "'px batch"
    and env :: "('img, 'px, 'rng) collaborators"
  assumes r: "ready env p s b"
    and ex: "\<exists>i<length (lines s). image_at env p (lines s) i \<noteq> None"
  shows "\<exists>ids s' b'.
      load_batch env p s b = Some (Inr (s', b')) \<and>
      length ids = nat (batch_size p) \<and>
      visits (\<lambda>i. image_at env p (lines s) i \<noteq> None) (length (lines s)) (lines_id s) ids \<and>
      s' = s\<lparr>lines_id := (last ids + 1) mod length (lines s),
             transformed_data := InferBlobShape env (the (image_at env p (lines s) (hd ids)))\<rparr> \<and>
      data_shape b'
        = (InferBlobShape env (the (image_at env p (lines s) (hd ids))))[0 := batch_size p] \<and>
      label_shape b' = label_shape b \<and>
      data b' = map (\<lambda>i. Some (Transform env (the (image_at env p (lines s) i)))) ids \<and>
      length (label b') = length (label b) \<and>
      (\<forall>i<nat (batch_size p). \<forall>j<nat (num_labels_per_line s).
         label b' ! (i * nat (num_labels_per_line s) + j)
           = label_cell [LABEL_VALUES s ! 0, LABEL_VALUES s ! 1] (num_labels_per_line s)
               (lines s ! (ids ! i)) j 0)"
proof -
  from r have lv: "length (LABEL_VALUES s) = 2" by (simp add: ready_def)
  then obtain u g where LV: "LABEL_VALUES s = [u, g]"
    by (cases "LABEL_VALUES s"; cases "tl (LABEL_VALUES s)") auto
  have f: "LABEL_VALUES s ! 0 = u" "LABEL_VALUES s ! 1 = g"
    by (simp_all add: LV)
  from r have inf: "\<forall>cv_img. InferBlobShape env cv_img \<noteq> []"
    by (simp add: ready_def)
  show ?thesis
    unfolding f
    by (rule load_batch_run [OF _ _ ex _ _ LV _ _ inf]) (use r in \<open>simp_all add: ready_def\<close>)
qed

subsection \<open>The cursor and one batch, with shuffling or without\<close>

lemma cursor_put [simp]: "cursor (put_cursor c s) = c"
  by (cases c) (simp add: cursor_def put_cursor_def)

lemma put_cursor_same [simp]: "put_cursor (cursor s) s = s"
  by (simp add: cursor_def put_cursor_def)

lemma put_put [simp]: "put_cursor c (put_cursor d s) = put_cursor c s"
  by (cases c; cases d) (simp add: put_cursor_def)

lemma put_cursor_fields [simp]:
  "lines (put_cursor c s) = fst c" "lines_id (put_cursor c s) = fst (snd c)"
  "prefetch_rng (put_cursor c s) = snd (snd c)"
  "num_labels_per_line (put_cursor c s) = num_labels_per_line s"
  "LABEL_VALUES (put_cursor c s) = LABEL_VALUES s"
  "transformed_data (put_cursor c s) = transformed_data s"
  by (cases c; simp add: put_cursor_def)+


lemma cursor_transformed [simp]: "cursor (s\<lparr>transformed_data := x\<rparr>) = cursor s"
  by (simp add: cursor_def)
















subsection \<open>Claims on the cursor and on load_batch\<close>

text \<open>
  Claim C4. Without shuffling and with the cursor inside the dataset, consuming as many
  entries as the dataset has returns the dataset, in its order, as it lies from the
  cursor on and round to the cursor, and leaves the layer as it was; one more
  consumption returns the entry under the first cursor again. From the cursor 0 the
  entries are the dataset itself, and the next one is entry 0.
\<close>

theorem C4_cursor_traversal:
  fixes s :: "('px, 'rng) layer"
  assumes "\<not> shuffle p" and "lines_id s < length (lines s)"
  shows "consume env p (length (lines s)) s = Inr (rotate (lines_id s) (lines s), s) \<and>
     consume env p (length (lines s) + 1) s
       = Inr (rotate (lines_id s) (lines s) @ [lines s ! lines_id s],
              s\<lparr>lines_id := (lines_id s + 1) mod length (lines s)\<rparr>) \<and>
     (lines_id s = 0 \<longrightarrow>
        consume env p (length (lines s)) s = Inr (lines s, s) \<and>
        consume env p (length (lines s) + 1) s
          = Inr (lines s @ [lines s ! 0], s\<lparr>lines_id := 1 mod length (lines s)\<rparr>))"
proof -
  define n where "n = length (lines s)"
  define c where "c = lines_id s"
  have cn: "c < n" using assms(2) by (simp add: c_def n_def)
  have rot: "map (\<lambda>i. lines s ! ((c + i) mod n)) [0 ..< n] = rotate c (lines s)"
  proof (rule nth_equalityI)
    show "length (map (\<lambda>i. lines s ! ((c + i) mod n)) [0 ..< n]) = length (rotate c (lines s))"
      by (simp add: n_def)
    fix i assume "i < length (map (\<lambda>i. lines s ! ((c + i) mod n)) [0 ..< n])"
    then have i: "i < n" by simp
    then show "map (\<lambda>i. lines s ! ((c + i) mod n)) [0 ..< n] ! i = rotate c (lines s) ! i"
      by (simp add: nth_rotate n_def)
  qed
  have e: "s\<lparr>lines_id := (c + n) mod n\<rparr> = s"
    using cn by (simp add: c_def)
  have a: "consume env p n s = Inr (rotate c (lines s), s)"
    using consume_run [OF assms, of env n] by (simp only: n_def [symmetric] c_def [symmetric] rot e)
  have m: "map (\<lambda>i. lines s ! ((c + i) mod n)) [0 ..< n + 1]
      = rotate c (lines s) @ [lines s ! c]"
    using cn rot by simp
  have e1: "(c + (n + 1)) mod n = (c + 1) mod n"
    by (metis add.assoc add.commute mod_add_self1)
  have b: "consume env p (n + 1) s
       = Inr (rotate c (lines s) @ [lines s ! c], s\<lparr>lines_id := (c + 1) mod n\<rparr>)"
    using consume_run [OF assms, of env "n + 1"]
    by (simp only: n_def [symmetric] c_def [symmetric] m e1)
  from a b show ?thesis
    unfolding n_def [symmetric] c_def [symmetric] by simp
qed

text \<open>
  Claim C7. When \<open>load_batch\<close> returns a batch, the image that the first load loop of
  the call returned (a load that succeeded, at the cursor the loop stopped on) gives the
  shape: \<open>transformed_data\<close> has the inferred shape, the image tensor of the batch has
  that shape with \<open>batch_size\<close> in place of its first axis, whatever shape the batch had
  before, it has \<open>batch_size\<close> slots, all written after the reshape, and slot 0 holds
  the transform of that same image. With shuffling or without.
\<close>

theorem C7_shape_from_first_image:
  fixes s :: "('px, 'rng) layer" and b :: "'px batch"
    and env :: "('img, 'px, 'rng) collaborators"
  assumes "load_batch env p s b = Some (Inr (s', b'))"
  shows "\<exists>cv_img s1.
      load_image env p s = Some (Inr (cv_img, s1)) \<and>
      read_image env p s1 = Inr (Some cv_img) \<and>
      transformed_data s' = InferBlobShape env cv_img \<and>
      data_shape b' = batch_size p # tl (InferBlobShape env cv_img) \<and>
      length (data b') = nat (batch_size p) \<and>
      (\<forall>i<nat (batch_size p). data b' ! i \<noteq> None) \<and>
      (0 < batch_size p \<longrightarrow> data b' ! 0 = Some (Transform env cv_img))"
proof -
  note lb = assms
  from lb obtain cv_img s1 where li: "load_image env p s = Some (Inr (cv_img, s1))"
    by (auto simp: load_batch_def split: if_splits option.splits sum.splits)
  define top_shape where "top_shape = InferBlobShape env cv_img"
  define s2 where "s2 = s1\<lparr>transformed_data := top_shape\<rparr>"
  define b1 where "b1 = Reshape_data (top_shape[0 := batch_size p]) b"
  define N where "N = nat (batch_size p)"
  from lb li have ts: "top_shape \<noteq> []"
    by (auto simp: load_batch_def Let_def top_shape_def split: if_splits)
  from lb li ts obtain Y where cs: "caffe_set (batch_size p * num_labels_per_line s2) 0 (label b1) = Inr Y"
    by (auto simp: load_batch_def Let_def top_shape_def s2_def b1_def split: if_splits sum.splits)
  define b2 where "b2 = b1\<lparr>label := Y\<rparr>"
  have f1: "Reshape_data ((InferBlobShape env cv_img)[0 := batch_size p]) b = b1"
    by (simp add: b1_def top_shape_def)
  have f2: "s1\<lparr>transformed_data := InferBlobShape env cv_img\<rparr> = s2"
    by (simp add: s2_def top_shape_def)
  have f4: "InferBlobShape env cv_img \<noteq> []"
    using ts by (simp add: top_shape_def)
  have cs': "caffe_set (batch_size p * num_labels_per_line s1) 0 (label b1) = Inr Y"
    using cs by (simp add: s2_def)
  from lb have run: "for_item_id env p (length (lines s2)) [0 ..< N] s2 b2 = Some (Inr (s', b'))"
    by (simp add: load_batch_def li Let_def f1 f2 f4 cs' b2_def N_def split: if_splits)
  note fr = for_item_id_frame [OF run]
  have hd: "hd (top_shape[0 := batch_size p]) = batch_size p"
    using ts by (cases top_shape) simp_all
  have sh: "top_shape[0 := batch_size p] = batch_size p # tl top_shape"
    using ts by (cases top_shape) simp_all
  have b2f: "data_shape b2 = batch_size p # tl top_shape" "data b2 = replicate N None"
    by (simp_all add: b2_def b1_def Reshape_data_def hd sh N_def)
  have ri: "read_image env p s1 = Inr (Some cv_img)"
    using load_image_result [OF li] by simp
  have A: "transformed_data s' = InferBlobShape env cv_img"
    using fr by (simp add: s2_def top_shape_def)
  have B: "data_shape b' = batch_size p # tl (InferBlobShape env cv_img)"
    using fr b2f by (simp add: top_shape_def)
  have C: "length (data b') = nat (batch_size p)"
    using fr b2f by (simp add: N_def)
  have D: "\<forall>i<nat (batch_size p). data b' ! i \<noteq> None"
    using fr b2f by (simp add: N_def)
  have E: "data b' ! 0 = Some (Transform env cv_img)" if pos: "0 < batch_size p"
  proof -
    from pos have N: "[0 ..< N] = 0 # [1 ..< N]" "0 < N"
      by (simp_all add: N_def upt_conv_Cons)
    have "read_image env p s2 = read_image env p s1"
      by (simp add: read_image_def s2_def)
    with ri have ri2: "read_image env p s2 = Inr (Some cv_img)"
      by simp
    have li2: "load_image env p s2 = Some (Inr (cv_img, s2))"
      by (subst load_image.simps) (simp add: ri2)
    define b3 where "b3 = b2\<lparr>data := (data b2)[0 := Some (Transform env cv_img)]\<rparr>"
    from run obtain Y' s3 where
      r3: "for_item_id env p (length (lines s2)) [1 ..< N] s3 (b3\<lparr>label := Y'\<rparr>)
             = Some (Inr (s', b'))"
      unfolding N(1)
      by (auto simp: li2 Let_def b3_def [symmetric] split: if_splits sum.splits)
    note fr3 = for_item_id_frame [OF r3]
    have "0 < length (data (b3\<lparr>label := Y'\<rparr>))" "0 \<notin> set [1 ..< N]"
      using N(2) by (simp_all add: b3_def b2f)
    with fr3 have "data b' ! 0 = data (b3\<lparr>label := Y'\<rparr>) ! 0"
      by blast
    then show ?thesis
      using N(2) by (simp add: b3_def b2f)
  qed
  show ?thesis
    using li ri A B C D E by blast
qed






lemma last_mod_shift:
  fixes c n N :: nat
  assumes "0 < N"
  shows "(last (map (\<lambda>i. (c + i) mod n) [0 ..< N]) + 1) mod n = (c + N) mod n"
proof -
  from assms obtain M where N: "N = Suc M" by (cases N) auto
  have "last (map (\<lambda>i. (c + i) mod n) [0 ..< N]) = (c + M) mod n"
    by (simp add: N)
  then show ?thesis
    by (simp add: N mod_Suc_eq)
qed

text \<open>
  Claim C8. Without shuffling, every line loading, and more than twice \<open>batch_size\<close>
  lines: two calls of \<open>load_batch\<close> in a row both return; slot \<open>i\<close> of the first
  batch is filled from line \<open>(c + i) mod n\<close> and slot \<open>i\<close> of the second from line
  \<open>(c + batch_size + i) mod n\<close>, where \<open>c\<close> is the cursor before the first call and
  \<open>n\<close> the number of lines; the cursor is \<open>(c + batch_size) mod n\<close> between the calls
  and \<open>(c + 2 * batch_size) mod n\<close> after them; and these \<open>2 * batch_size\<close> lines are
  pairwise different.
\<close>

theorem C8_consecutive_batches:
  fixes s :: "('px, 'rng) layer" and b b2 :: "'px batch"
    and env :: "('img, 'px, 'rng) collaborators"
  assumes r1: "ready env p s b" and r2: "ready env p s b2"
    and all: "\<forall>i<length (lines s). image_at env p (lines s) i \<noteq> None"
    and big: "2 * nat (batch_size p) < length (lines s)"
  shows "\<exists>s1 b1' s2 b2'.
      load_batch env p s b = Some (Inr (s1, b1')) \<and>
      load_batch env p s1 b2 = Some (Inr (s2, b2')) \<and>
      data b1' = map (\<lambda>i. Some (Transform env (the (image_at env p (lines s)
                     ((lines_id s + i) mod length (lines s))))))
                   [0 ..< nat (batch_size p)] \<and>
      data b2' = map (\<lambda>i. Some (Transform env (the (image_at env p (lines s)
                     ((lines_id s + nat (batch_size p) + i) mod length (lines s))))))
                   [0 ..< nat (batch_size p)] \<and>
      lines_id s1 = (lines_id s + nat (batch_size p)) mod length (lines s) \<and>
      lines_id s2 = (lines_id s + 2 * nat (batch_size p)) mod length (lines s) \<and>
      lines s2 = lines s \<and>
      distinct (map (\<lambda>i. (lines_id s + i) mod length (lines s)) [0 ..< 2 * nat (batch_size p)])"
proof -
  define n where "n = length (lines s)"
  define c where "c = lines_id s"
  define N where "N = nat (batch_size p)"
  define ok where "ok = (\<lambda>i. image_at env p (lines s) i \<noteq> None)"
  define im where "im = (\<lambda>i. Some (Transform env (the (image_at env p (lines s) i))))"
  from r1 have cn: "c < n" and N0: "0 < N"
    by (simp_all add: ready_def c_def n_def N_def)
  have n0: "0 < n" using cn by simp
  from all have allok: "\<forall>i<n. ok i" by (simp add: ok_def n_def)
  with cn have ex: "\<exists>i<length (lines s). image_at env p (lines s) i \<noteq> None"
    unfolding ok_def n_def by blast
  from ready_run [OF r1 ex]
  obtain ids1 s1 b1' where
    lb1: "load_batch env p s b = Some (Inr (s1, b1'))" and len1: "length ids1 = N"
    and vis1: "visits ok n c ids1"
    and s1: "s1 = s\<lparr>lines_id := (last ids1 + 1) mod n,
             transformed_data := InferBlobShape env (the (image_at env p (lines s) (hd ids1)))\<rparr>"
    and d1: "data b1' = map im ids1"
    unfolding n_def c_def N_def ok_def im_def by blast
  from visits_all_loadable [OF allok cn vis1] len1
  have ids1: "ids1 = map (\<lambda>i. (c + i) mod n) [0 ..< N]" by simp
  have c1: "lines_id s1 = (c + N) mod n"
  proof -
    have "lines_id s1 = (last ids1 + 1) mod n" by (simp add: s1)
    also have "\<dots> = (c + N) mod n"
      unfolding ids1 by (rule last_mod_shift [OF N0])
    finally show ?thesis .
  qed
  have l1: "lines s1 = lines s" by (simp add: s1)
  have c1n: "lines_id s1 < n" unfolding c1 using n0 by (rule mod_less_divisor)
  have r2': "ready env p s1 b2"
    using r2 c1n by (simp add: ready_def s1 n_def)
  have ex2: "\<exists>i<length (lines s1). image_at env p (lines s1) i \<noteq> None"
    using ex by (simp add: l1)
  from ready_run [OF r2' ex2]
  obtain ids2 s2 b2' where
    lb2: "load_batch env p s1 b2 = Some (Inr (s2, b2'))" and len2: "length ids2 = N"
    and vis2: "visits ok n (lines_id s1) ids2"
    and s2: "s2 = s1\<lparr>lines_id := (last ids2 + 1) mod n,
             transformed_data := InferBlobShape env (the (image_at env p (lines s) (hd ids2)))\<rparr>"
    and d2: "data b2' = map im ids2"
    unfolding l1 n_def N_def ok_def im_def by blast
  from visits_all_loadable [OF allok c1n vis2] len2
  have "ids2 = map (\<lambda>i. (lines_id s1 + i) mod n) [0 ..< N]" by simp
  then have ids2: "ids2 = map (\<lambda>i. (c + N + i) mod n) [0 ..< N]"
    by (simp add: c1 mod_add_left_eq)
  have c2: "lines_id s2 = (c + 2 * N) mod n"
  proof -
    have "lines_id s2 = (last ids2 + 1) mod n" by (simp add: s2)
    also have "\<dots> = (c + N + N) mod n"
      unfolding ids2 by (rule last_mod_shift [OF N0])
    finally show ?thesis by (simp add: mult_2 add.assoc)
  qed
  have l2: "lines s2 = lines s" by (simp add: s2 l1)
  have D1: "data b1' = map (\<lambda>i. im ((c + i) mod n)) [0 ..< N]"
    unfolding d1 ids1 by (simp add: o_def)
  have D2: "data b2' = map (\<lambda>i. im ((c + N + i) mod n)) [0 ..< N]"
    unfolding d2 ids2 by (simp add: o_def)
  have dist: "distinct (map (\<lambda>i. (c + i) mod n) [0 ..< 2 * N])"
    using big by (intro distinct_mod_shift) (simp add: N_def n_def)
  show ?thesis
    apply (rule exI [of _ s1], rule exI [of _ b1'], rule exI [of _ s2], rule exI [of _ b2'])
    using lb1 lb2 D1 D2 c1 c2 l2 dist
    unfolding n_def c_def N_def im_def
    apply (intro conjI)
           apply assumption+
    done
qed

subsection \<open>The small instance, evaluated\<close>

lemma example_layer_eq:
  "example_layer = \<lparr>LABEL_VALUES = [1, 255],
     lines = [(''a.jpg'', [[3, 7], [2]]), (''b.jpg'', [[0], []]), (''c.jpg'', [[1], []])],
     lines_id = 0, num_labels_per_line = 8, prefetch_rng = None,
     transformed_data = [1, 3, 5, 5],
     prefetch = replicate 3 \<lparr>data_shape = [2, 3, 5, 5], data = [None, None],
        label_shape = [2, 8], label = replicate 16 0\<rparr>,
     top_blobs = [[2, 3, 5, 5], [2, 8]]\<rparr>"
  by code_simp





lemma example_layer5_eq:
  "example_layer5 = \<lparr>LABEL_VALUES = [1, 255],
     lines = [(''a.jpg'', [[0], []]), (''c.jpg'', [[1], []]), (''a.jpg'', [[2], []]),
              (''c.jpg'', [[3], []]), (''a.jpg'', [[4], []])],
     lines_id = 0, num_labels_per_line = 1, prefetch_rng = None,
     transformed_data = [1, 3, 5, 5],
     prefetch = replicate 3 \<lparr>data_shape = [2, 3, 5, 5], data = [None, None],
        label_shape = [2, 1], label = [0, 0]\<rparr>,
     top_blobs = [[2, 3, 5, 5], [2, 1]]\<rparr>"
  by code_simp

lemma example_batch5_eq:
  "example_batch5 = \<lparr>data_shape = [2, 3, 5, 5], data = [None, None],
        label_shape = [2, 1], label = [0, 0]\<rparr>"
  by code_simp

lemma example_ready5:
  "ready example_env (example_param example_source5) example_layer5 example_batch5"
  unfolding example_layer5_eq example_batch5_eq
  by (simp add: ready_def example_param_def labels_fit_def count_def example_env_def)

lemma example_loadable5:
  "\<forall>i<length (lines example_layer5).
     image_at example_env (example_param example_source5) (lines example_layer5) i \<noteq> None"
proof -
  have "\<forall>e \<in> set (lines example_layer5).
      ReadImageToCVMat example_env (root_folder (example_param example_source5) @ fst e)
        (new_height (example_param example_source5)) (new_width (example_param example_source5))
        (is_color (example_param example_source5)) \<noteq> None"
    unfolding example_layer5_eq by (simp add: example_env_def example_param_def)
  then show ?thesis
    unfolding image_at_def using nth_mem by blast
qed

lemma example_run5:
  "load_batch example_env (example_param example_source5) example_layer5 example_batch5
     = Some (Inr (example_layer5\<lparr>lines_id := 2\<rparr>,
         \<lparr>data_shape = [2, 3, 5, 5], data = [Some 4, Some 6], label_shape = [2, 1],
          label = [0, 1]\<rparr>))"
  "load_batch example_env (example_param example_source5) (example_layer5\<lparr>lines_id := 2\<rparr>)
       example_batch5
     = Some (Inr (example_layer5\<lparr>lines_id := 4\<rparr>,
         \<lparr>data_shape = [2, 3, 5, 5], data = [Some 4, Some 6], label_shape = [2, 1],
          label = [2, 3]\<rparr>))"
  by code_simp+












text \<open>Three consumptions return the three entries, the fourth the first entry.\<close>

theorem C4_cursor_traversal_witness:
  "\<not> shuffle (example_param example_source) \<and>
   lines_id example_layer < length (lines example_layer) \<and>
   length (lines example_layer) = 3 \<and>
   consume example_env (example_param example_source) 3 example_layer
     = Inr (lines example_layer, example_layer) \<and>
   consume example_env (example_param example_source) 4 example_layer
     = Inr (lines example_layer @ [lines example_layer ! 0], example_layer\<lparr>lines_id := 1\<rparr>)"
proof -
  define P where "P = example_param example_source"
  have ns: "\<not> shuffle P" by (simp add: P_def example_param_def)
  have n: "length (lines example_layer) = 3" "lines_id example_layer = 0"
    unfolding example_layer_eq by simp_all
  have c: "lines_id example_layer < length (lines example_layer)" by (simp add: n)
  from C4_cursor_traversal [OF ns c, of example_env] n(2)
  have "consume example_env P (length (lines example_layer)) example_layer
          = Inr (lines example_layer, example_layer) \<and>
        consume example_env P (length (lines example_layer) + 1) example_layer
          = Inr (lines example_layer @ [lines example_layer ! 0],
                 example_layer\<lparr>lines_id := 1 mod length (lines example_layer)\<rparr>)"
    by blast
  then have "consume example_env P 3 example_layer = Inr (lines example_layer, example_layer) \<and>
        consume example_env P 4 example_layer
          = Inr (lines example_layer @ [lines example_layer ! 0], example_layer\<lparr>lines_id := 1\<rparr>)"
    unfolding n by simp
  with ns c n(1) show ?thesis
    unfolding P_def by simp
qed

text \<open>From the cursor on the line that cannot be loaded, the shape is that of the third
  line's image.\<close>

theorem C7_shape_from_first_image_witness:
  "load_batch example_env (example_param example_source) (example_layer\<lparr>lines_id := 1\<rparr>)
       example_batch
     = Some (Inr (example_layer\<lparr>lines_id := 1, transformed_data := [1, 3, 7, 7]\<rparr>,
         \<lparr>data_shape = [2, 3, 7, 7], data = [Some 6, Some 4], label_shape = [2, 8],
          label = [0, 1, 0, 0, 0, 0, 0, 0, 0, 0, 255, 1, 0, 0, 0, 1]\<rparr>)) \<and>
   (\<exists>cv_img s1.
      load_image example_env (example_param example_source) (example_layer\<lparr>lines_id := 1\<rparr>)
        = Some (Inr (cv_img, s1)) \<and>
      cv_img = 6 \<and> InferBlobShape example_env cv_img = [1, 3, 7, 7] \<and>
      [2, 3, 7, 7] = batch_size (example_param example_source) # tl (InferBlobShape example_env cv_img))"
proof -
  define P where "P = example_param example_source"
  have run: "load_batch example_env P (example_layer\<lparr>lines_id := 1\<rparr>) example_batch
     = Some (Inr (example_layer\<lparr>lines_id := 1, transformed_data := [1, 3, 7, 7]\<rparr>,
         \<lparr>data_shape = [2, 3, 7, 7], data = [Some 6, Some 4], label_shape = [2, 8],
          label = [0, 1, 0, 0, 0, 0, 0, 0, 0, 0, 255, 1, 0, 0, 0, 1]\<rparr>))"
    unfolding P_def by code_simp
  have li: "load_image example_env P (example_layer\<lparr>lines_id := 1\<rparr>)
      = Some (Inr (6, example_layer\<lparr>lines_id := 2\<rparr>))"
    unfolding P_def by code_simp
  from C7_shape_from_first_image [OF run]
  obtain cv_img s1 where
    a: "load_image example_env P (example_layer\<lparr>lines_id := 1\<rparr>) = Some (Inr (cv_img, s1))"
    and b: "[2, 3, 7, 7] = batch_size P # tl (InferBlobShape example_env cv_img)"
    by auto
  from a li have cv: "cv_img = 6" by simp
  then have i: "InferBlobShape example_env cv_img = [1, 3, 7, 7]"
    by (simp add: example_env_def)
  from a cv i b have "\<exists>cv_img s1.
      load_image example_env P (example_layer\<lparr>lines_id := 1\<rparr>) = Some (Inr (cv_img, s1)) \<and>
      cv_img = 6 \<and> InferBlobShape example_env cv_img = [1, 3, 7, 7] \<and>
      [2, 3, 7, 7] = batch_size P # tl (InferBlobShape example_env cv_img)"
    by blast
  with run show ?thesis
    unfolding P_def by (simp only: simp_thms)
qed

text \<open>Five lines, two slots: the batches take the lines 0, 1 and then 2, 3.\<close>

theorem C8_consecutive_batches_witness:
  "ready example_env (example_param example_source5) example_layer5 example_batch5 \<and>
   2 * nat (batch_size (example_param example_source5)) < length (lines example_layer5) \<and>
   load_batch example_env (example_param example_source5) example_layer5 example_batch5
     = Some (Inr (example_layer5\<lparr>lines_id := 2\<rparr>,
         \<lparr>data_shape = [2, 3, 5, 5], data = [Some 4, Some 6], label_shape = [2, 1],
          label = [0, 1]\<rparr>)) \<and>
   load_batch example_env (example_param example_source5) (example_layer5\<lparr>lines_id := 2\<rparr>)
       example_batch5
     = Some (Inr (example_layer5\<lparr>lines_id := 4\<rparr>,
         \<lparr>data_shape = [2, 3, 5, 5], data = [Some 4, Some 6], label_shape = [2, 1],
          label = [2, 3]\<rparr>)) \<and>
   distinct (map (\<lambda>i. (0 + i) mod 5) [0 ..< 4 :: nat]) \<and>
   (\<exists>(s1 :: (nat, unit) layer) (s2 :: (nat, unit) layer). lines_id s1 = (0 + 2) mod 5 \<and> lines_id s2 = (0 + 2 * 2) mod 5 \<and>
      lines s2 = lines example_layer5)"
proof -
  define P where "P = example_param example_source5"
  have n: "length (lines example_layer5) = 5" "lines_id example_layer5 = 0"
    "nat (batch_size P) = 2"
    unfolding example_layer5_eq P_def by (simp_all add: example_param_def)
  have big: "2 * nat (batch_size P) < length (lines example_layer5)"
    by (simp add: n)
  from C8_consecutive_batches [OF example_ready5 [folded P_def] example_ready5 [folded P_def]
      example_loadable5 [folded P_def] big]
  obtain s1 s2 :: "(nat, unit) layer" where
    a: "lines_id s1 = (lines_id example_layer5 + nat (batch_size P)) mod length (lines example_layer5)"
    "lines_id s2 = (lines_id example_layer5 + 2 * nat (batch_size P)) mod length (lines example_layer5)"
    "lines s2 = lines example_layer5"
    and d: "distinct (map (\<lambda>i. (lines_id example_layer5 + i) mod length (lines example_layer5))
        [0 ..< 2 * nat (batch_size P)])"
    by blast
  from a have "\<exists>(s1 :: (nat, unit) layer) (s2 :: (nat, unit) layer). lines_id s1 = (0 + 2) mod 5 \<and> lines_id s2 = (0 + 2 * 2) mod 5 \<and>
      lines s2 = lines example_layer5"
    unfolding n by blast
  moreover from d have "distinct (map (\<lambda>i. (0 + i) mod 5) [0 ..< 4 :: nat])"
    unfolding n by simp
  ultimately show ?thesis
    using example_ready5 big example_run5 unfolding P_def by (simp only: simp_thms)
qed

end
